theory Spec2Isabelle
  imports Complex_Main "HOL-Library.Multiset"
begin

section \<open>The graph container\<close>

text \<open>
  Modelled from the spec: the graph container (section 3 and section 6 of the
  specification; the classes Graph, DiGraph, MultiGraph and MultiDiGraph are not part of
  euler.py).  A graph has the two flags \<open>directed\<close> and \<open>multi\<close>, its vertices in
  iteration order and its edges in iteration order.  Every edge carries a key; the edges
  of a graph that is not a multigraph all carry key 0.  An undirected edge is stored
  once, under one of its two orientations.
\<close>

type_synonym vertex = nat
type_synonym key = nat
type_synonym edge = "vertex \<times> vertex \<times> key"

record graph =
  is_directed :: bool
  is_multigraph :: bool
  node_list :: "vertex list"
  edge_list :: "edge list"

datatype error =
    NetworkXError string
  | NetworkXPointlessConcept string
  | NetworkXNotImplemented string
  | ValueError string
  | IndexError string
  | KeyError string
  | ZeroDivisionError
  | StopIteration

definition same_ends :: "vertex \<Rightarrow> vertex \<Rightarrow> edge \<Rightarrow> bool" where
  "same_ends u v e = (case e of (a, b, k) \<Rightarrow> (a = u \<and> b = v) \<or> (a = v \<and> b = u))"

definition wf_graph :: "graph \<Rightarrow> bool" where
  "wf_graph G \<longleftrightarrow>
     distinct (node_list G) \<and>
     list_all (\<lambda>(a, b, k). a \<in> set (node_list G) \<and> b \<in> set (node_list G)) (edge_list G) \<and>
     distinct (edge_list G) \<and>
     (is_directed G \<or> list_all (\<lambda>(a, b, k). a = b \<or> (b, a, k) \<notin> set (edge_list G)) (edge_list G)) \<and>
     (is_multigraph G \<or> list_all (\<lambda>(a, b, k). k = 0) (edge_list G))"

definition in_degree :: "graph \<Rightarrow> vertex \<Rightarrow> nat" where
  "in_degree G v = length (filter (\<lambda>(a, b, k). b = v) (edge_list G))"

definition out_degree :: "graph \<Rightarrow> vertex \<Rightarrow> nat" where
  "out_degree G v = length (filter (\<lambda>(a, b, k). a = v) (edge_list G))"

text \<open>The degree of a vertex counts a self-loop twice.\<close>

definition degree :: "graph \<Rightarrow> vertex \<Rightarrow> nat" where
  "degree G v = in_degree G v + out_degree G v"

definition order :: "graph \<Rightarrow> nat" where
  "order G = length (node_list G)"

text \<open>\<open>G.out_edges(v, keys=True)\<close> of a directed graph: the triples \<open>(v, w, k)\<close>.\<close>

definition out_edges :: "graph \<Rightarrow> vertex \<Rightarrow> edge list" where
  "out_edges G v = filter (\<lambda>(a, b, k). a = v) (edge_list G)"

text \<open>\<open>G.edges(v, keys=True)\<close> of an undirected graph: every edge at \<open>v\<close>, reported
  from \<open>v\<close>; a self-loop is reported once.\<close>

definition edges_at :: "graph \<Rightarrow> vertex \<Rightarrow> edge list" where
  "edges_at G v =
     concat (map (\<lambda>(a, b, k). if a = v then [(v, b, k)] else if b = v then [(v, a, k)] else [])
                 (edge_list G))"

fun remove_first :: "('a \<Rightarrow> bool) \<Rightarrow> 'a list \<Rightarrow> 'a list" where
  "remove_first P [] = []"
| "remove_first P (x # xs) = (if P x then xs else x # remove_first P xs)"

text \<open>\<open>G.remove_edge(u, v, key)\<close> of a multigraph and \<open>G.remove_edge(u, v)\<close> of a
  simple graph.  Both are only called on an edge just read from the graph.\<close>

definition remove_edge_key :: "graph \<Rightarrow> vertex \<Rightarrow> vertex \<Rightarrow> key \<Rightarrow> graph" where
  "remove_edge_key G u v k =
     G\<lparr>edge_list :=
         remove_first (\<lambda>(a, b, k'). k' = k \<and>
             (if is_directed G then a = u \<and> b = v else same_ends u v (a, b, k')))
           (edge_list G)\<rparr>"

definition remove_edge :: "graph \<Rightarrow> vertex \<Rightarrow> vertex \<Rightarrow> graph" where
  "remove_edge G u v =
     G\<lparr>edge_list :=
         remove_first (\<lambda>(a, b, k').
             (if is_directed G then a = u \<and> b = v else same_ends u v (a, b, k')))
           (edge_list G)\<rparr>"

definition reverse :: "graph \<Rightarrow> graph" where
  "reverse G = G\<lparr>edge_list := map (\<lambda>(a, b, k). (b, a, k)) (edge_list G)\<rparr>"

definition copy :: "graph \<Rightarrow> graph" where
  "copy G = G"

text \<open>\<open>arbitrary_element\<close> is \<open>next(iter(iterable))\<close>: the first element in iteration
  order.\<close>

definition arbitrary_element :: "'a list \<Rightarrow> error + 'a" where
  "arbitrary_element xs = (case xs of [] \<Rightarrow> Inl StopIteration | x # _ \<Rightarrow> Inr x)"

section \<open>Connectivity\<close>

text \<open>
  Modelled from the spec: the connectivity predicates of section 6 (\<open>is_connected\<close>,
  \<open>is_strongly_connected\<close>, \<open>is_weakly_connected\<close> are not part of euler.py).  A
  breadth-first search from the first vertex, one level per round, for as many rounds as
  the graph has vertices; the graph is connected when the search reaches every vertex.
  On the graph without vertices the three predicates fail with the pointless-concept
  condition.
\<close>

fun reach :: "nat \<Rightarrow> (vertex \<times> vertex) list \<Rightarrow> vertex list \<Rightarrow> vertex list" where
  "reach 0 E S = S"
| "reach (Suc n) E S = reach n E (S @ map snd (filter (\<lambda>(a, b). a \<in> set S) E))"

definition arcs :: "graph \<Rightarrow> (vertex \<times> vertex) list" where
  "arcs G = map (\<lambda>(a, b, k). (a, b)) (edge_list G)"

definition rev_arcs :: "graph \<Rightarrow> (vertex \<times> vertex) list" where
  "rev_arcs G = map (\<lambda>(a, b, k). (b, a)) (edge_list G)"

definition covers :: "graph \<Rightarrow> (vertex \<times> vertex) list \<Rightarrow> bool" where
  "covers G E \<longleftrightarrow>
     list_all (\<lambda>v. v \<in> set (reach (order G) E [hd (node_list G)])) (node_list G)"

definition null_graph_error :: error where
  "null_graph_error = NetworkXPointlessConcept ''Connectivity is undefined for the null graph.''"

definition is_connected :: "graph \<Rightarrow> error + bool" where
  "is_connected G =
     (if order G = 0 then Inl null_graph_error else Inr (covers G (arcs G @ rev_arcs G)))"

definition is_weakly_connected :: "graph \<Rightarrow> error + bool" where
  "is_weakly_connected G =
     (if order G = 0 then Inl null_graph_error else Inr (covers G (arcs G @ rev_arcs G)))"

definition is_strongly_connected :: "graph \<Rightarrow> error + bool" where
  "is_strongly_connected G =
     (if order G = 0 then Inl null_graph_error
      else Inr (covers G (arcs G) \<and> covers G (rev_arcs G)))"

section \<open>The degree-parity analyzer\<close>

definition is_eulerian :: "graph \<Rightarrow> error + bool" where
  "is_eulerian G =
     (if is_directed G then
        (if list_all (\<lambda>n. in_degree G n = out_degree G n) (node_list G)
         then is_strongly_connected G else Inr False)
      else
        (if list_all (\<lambda>v. degree G v mod 2 = 0) (node_list G)
         then is_connected G else Inr False))"

text \<open>Python's \<open>sum\<close> of a generator of booleans counts the true ones.\<close>

definition count_where :: "('a \<Rightarrow> bool) \<Rightarrow> 'a list \<Rightarrow> nat" where
  "count_where P xs = length (filter P xs)"

definition has_eulerian_path :: "graph \<Rightarrow> error + bool" where
  "has_eulerian_path G =
     (if is_directed G then
        (let ins = (\<lambda>v. int (in_degree G v));
             outs = (\<lambda>v. int (out_degree G v));
             semibalanced_ins = count_where (\<lambda>v. ins v - outs v = 1) (node_list G);
             semibalanced_outs = count_where (\<lambda>v. outs v - ins v = 1) (node_list G)
         in if semibalanced_ins \<le> 1 \<and> semibalanced_outs \<le> 1 \<and>
               count_where (\<lambda>v. in_degree G v \<noteq> out_degree G v) (node_list G) \<le> 2
            then is_weakly_connected G else Inr False)
      else
        (if count_where (\<lambda>v. degree G v mod 2 = 1) (node_list G) \<in> {0, 2}
         then is_connected G else Inr False))"

definition is_semieulerian :: "graph \<Rightarrow> error + bool" where
  "is_semieulerian G =
     (case has_eulerian_path G of
        Inl e \<Rightarrow> Inl e
      | Inr False \<Rightarrow> Inr False
      | Inr True \<Rightarrow> (case is_eulerian G of Inl e \<Rightarrow> Inl e | Inr b \<Rightarrow> Inr (\<not> b)))"

definition find_path_start :: "graph \<Rightarrow> error + vertex option" where
  "find_path_start G =
     (case has_eulerian_path G of
        Inl e \<Rightarrow> Inl e
      | Inr False \<Rightarrow> Inr None
      | Inr True \<Rightarrow>
         (case is_eulerian G of
            Inl e \<Rightarrow> Inl e
          | Inr True \<Rightarrow>
             (case arbitrary_element (node_list G) of Inl e \<Rightarrow> Inl e | Inr v \<Rightarrow> Inr (Some v))
          | Inr False \<Rightarrow>
             (if is_directed G then
                (case filter (\<lambda>v. in_degree G v \<noteq> out_degree G v) (node_list G) of
                   [v1, v2] \<Rightarrow>
                     if out_degree G v1 > in_degree G v1 then Inr (Some v1) else Inr (Some v2)
                 | _ \<Rightarrow> Inl (ValueError ''unpack''))
              else
                (case filter (\<lambda>v. degree G v mod 2 \<noteq> 0) (node_list G) of
                   [] \<Rightarrow> Inl (IndexError ''list index out of range'')
                 | start # _ \<Rightarrow> Inr (Some start)))))"

section \<open>Objects and the store\<close>

text \<open>
  A Python variable holds a reference to a graph object, and \<open>remove_edge\<close> and
  \<open>add_edge\<close> change the object in place.  The store is the list of the graph objects
  that exist; a reference is an index into it.  \<open>G.copy()\<close>, \<open>G.reverse()\<close> and
  \<open>nx.MultiGraph(G)\<close> make a new object.
\<close>

type_synonym ref = nat
type_synonym store = "graph list"

definition new_object :: "store \<Rightarrow> graph \<Rightarrow> ref \<times> store" where
  "new_object \<sigma> G = (length \<sigma>, \<sigma> @ [G])"

section \<open>The circuit builder\<close>

text \<open>
  The two branches at the head of both walks: a directed graph is walked along its
  outgoing edges, an undirected one along all edges at the vertex.
\<close>

definition walk_degree :: "graph \<Rightarrow> vertex \<Rightarrow> nat" where
  "walk_degree G v = (if is_directed G then out_degree G v else degree G v)"

definition walk_edges :: "graph \<Rightarrow> vertex \<Rightarrow> edge list" where
  "walk_edges G v = (if is_directed G then out_edges G v else edges_at G v)"

text \<open>
  \<open>_simplegraph_eulerian_circuit\<close>: the state of the while loop is the working graph,
  the vertex stack (its top is the head of the list), \<open>last_vertex\<close> and the pairs
  yielded so far; the loop returns the pairs yielded and the working graph as it leaves
  it.  The branch on an empty edge view is the place where \<open>arbitrary_element\<close> would
  stop the generator; it is never reached, since the vertex has a non-zero degree there.
\<close>

function simplegraph_eulerian_circuit_loop ::
  "graph \<Rightarrow> vertex list \<Rightarrow> vertex option \<Rightarrow> (vertex \<times> vertex) list \<Rightarrow>
     (vertex \<times> vertex) list \<times> graph" where
  "simplegraph_eulerian_circuit_loop G [] last_vertex yielded = (yielded, G)"
| "simplegraph_eulerian_circuit_loop G (current_vertex # vertex_stack) last_vertex yielded =
     (if walk_degree G current_vertex = 0 then
        simplegraph_eulerian_circuit_loop G vertex_stack (Some current_vertex)
          (case last_vertex of None \<Rightarrow> yielded | Some l \<Rightarrow> yielded @ [(l, current_vertex)])
      else
        (case walk_edges G current_vertex of
           [] \<Rightarrow> (yielded, G)
         | (u, next_vertex, k) # rest \<Rightarrow>
             simplegraph_eulerian_circuit_loop (remove_edge G current_vertex next_vertex)
               (next_vertex # current_vertex # vertex_stack) last_vertex yielded))"
  by pat_completeness auto
termination
proof -
  have rf: "\<exists>x \<in> set xs. P x \<Longrightarrow> length (remove_first P xs) < length xs"
    for P and xs :: "edge list"
    by (induction xs) auto
  have shrink: "length (edge_list (remove_edge G v w)) < length (edge_list G)"
    if "walk_edges G v = (a, w, k) # rest" for G v a w k rest
  proof -
    from that have m: "(a, w, k) \<in> set (walk_edges G v)" by simp
    have "\<exists>e \<in> set (edge_list G). case e of (x, y, k') \<Rightarrow>
            (if is_directed G then x = v \<and> y = w else same_ends v w (x, y, k'))"
      using m by (cases "is_directed G")
        (auto simp: walk_edges_def out_edges_def edges_at_def same_ends_def split: if_splits)
    then show ?thesis unfolding remove_edge_def by (simp add: rf)
  qed
  show ?thesis
    by (relation "measure (\<lambda>(G, st, l, y). 2 * length (edge_list G) + length st)")
       (auto dest: shrink)
qed

definition simplegraph_eulerian_circuit ::
  "graph \<Rightarrow> vertex \<Rightarrow> (vertex \<times> vertex) list \<times> graph" where
  "simplegraph_eulerian_circuit G source = simplegraph_eulerian_circuit_loop G [source] None []"

text \<open>
  \<open>_multigraph_eulerian_circuit\<close>: the stack holds pairs of a vertex and the key of the
  edge that reached it (\<open>None\<close> for the source).
\<close>

function multigraph_eulerian_circuit_loop ::
  "graph \<Rightarrow> (vertex \<times> key option) list \<Rightarrow> vertex option \<Rightarrow> key option \<Rightarrow>
     (vertex \<times> vertex \<times> key option) list \<Rightarrow> (vertex \<times> vertex \<times> key option) list \<times> graph" where
  "multigraph_eulerian_circuit_loop G [] last_vertex last_key yielded = (yielded, G)"
| "multigraph_eulerian_circuit_loop G ((current_vertex, current_key) # vertex_stack)
       last_vertex last_key yielded =
     (if walk_degree G current_vertex = 0 then
        multigraph_eulerian_circuit_loop G vertex_stack (Some current_vertex) current_key
          (case last_vertex of None \<Rightarrow> yielded
           | Some l \<Rightarrow> yielded @ [(l, current_vertex, last_key)])
      else
        (case walk_edges G current_vertex of
           [] \<Rightarrow> (yielded, G)
         | (u, next_vertex, next_key) # rest \<Rightarrow>
             multigraph_eulerian_circuit_loop
               (remove_edge_key G current_vertex next_vertex next_key)
               ((next_vertex, Some next_key) # (current_vertex, current_key) # vertex_stack)
               last_vertex last_key yielded))"
  by pat_completeness auto
termination
proof -
  have rf: "\<exists>x \<in> set xs. P x \<Longrightarrow> length (remove_first P xs) < length xs"
    for P and xs :: "edge list"
    by (induction xs) auto
  have shrink: "length (edge_list (remove_edge_key G v w k)) < length (edge_list G)"
    if "walk_edges G v = (a, w, k) # rest" for G v a w k rest
  proof -
    from that have m: "(a, w, k) \<in> set (walk_edges G v)" by simp
    have "\<exists>e \<in> set (edge_list G). case e of (x, y, k') \<Rightarrow> k' = k \<and>
            (if is_directed G then x = v \<and> y = w else same_ends v w (x, y, k'))"
      using m by (cases "is_directed G")
        (auto simp: walk_edges_def out_edges_def edges_at_def same_ends_def split: if_splits)
    then show ?thesis unfolding remove_edge_key_def by (simp add: rf)
  qed
  show ?thesis
    by (relation "measure (\<lambda>(G, st, l, k, y). 2 * length (edge_list G) + length st)")
       (auto dest: shrink)
qed

definition multigraph_eulerian_circuit ::
  "graph \<Rightarrow> vertex \<Rightarrow> (vertex \<times> vertex \<times> key option) list \<times> graph" where
  "multigraph_eulerian_circuit G source =
     multigraph_eulerian_circuit_loop G [(source, None)] None None []"

text \<open>The tuples the two public generators yield: pairs, or triples with the key.\<close>

datatype edge_tuple = Edge2 vertex vertex | Edge3 vertex vertex "key option"

text \<open>
  The tail that \<open>eulerian_circuit\<close> and \<open>eulerian_path\<close> share: the walk runs on the
  object \<open>g\<close> of the store, which it changes in place.
\<close>

definition walk_and_yield ::
  "store \<Rightarrow> ref \<Rightarrow> vertex \<Rightarrow> bool \<Rightarrow> edge_tuple list \<times> store" where
  "walk_and_yield \<sigma> g source keys =
     (if is_multigraph (\<sigma> ! g) then
        (case multigraph_eulerian_circuit (\<sigma> ! g) source of
           (ys, G') \<Rightarrow>
             (map (\<lambda>(u, v, k). if keys then Edge3 u v k else Edge2 u v) ys, \<sigma>[g := G']))
      else
        (case simplegraph_eulerian_circuit (\<sigma> ! g) source of
           (ys, G') \<Rightarrow> (map (\<lambda>(u, v). Edge2 u v) ys, \<sigma>[g := G'])))"

text \<open>
  A call of a public function, in a store, raises an error or returns a value, and leaves
  a store.  \<open>eulerian_circuit\<close> and \<open>eulerian_path\<close> are generator functions: a call
  runs none of the body and returns a generator object; the body runs when the generator
  is consumed, in the store of that moment.  \<open>Generator body\<close> is that object.
  \<open>consume\<close> runs the body to its end and gives the error raised or the tuples yielded,
  and the store the body leaves; \<open>list_of\<close> is Python's \<open>list(...)\<close> around a call.
\<close>

datatype generator = Generator "store \<Rightarrow> (error + edge_tuple list) \<times> store"

fun consume :: "store \<Rightarrow> generator \<Rightarrow> (error + edge_tuple list) \<times> store" where
  "consume \<sigma> (Generator body) = body \<sigma>"

definition list_of :: "(error + generator) \<times> store \<Rightarrow> (error + edge_tuple list) \<times> store" where
  "list_of call = (case call of (Inl e, \<sigma>) \<Rightarrow> (Inl e, \<sigma>) | (Inr gen, \<sigma>) \<Rightarrow> consume \<sigma> gen)"

definition eulerian_circuit_body ::
  "ref \<Rightarrow> vertex option \<Rightarrow> bool \<Rightarrow> store \<Rightarrow> (error + edge_tuple list) \<times> store" where
  "eulerian_circuit_body G source keys \<sigma> =
     (case is_eulerian (\<sigma> ! G) of
        Inl e \<Rightarrow> (Inl e, \<sigma>)
      | Inr False \<Rightarrow> (Inl (NetworkXError ''G is not Eulerian.''), \<sigma>)
      | Inr True \<Rightarrow>
         (case new_object \<sigma> (if is_directed (\<sigma> ! G) then reverse (\<sigma> ! G) else copy (\<sigma> ! G)) of
            (G', \<sigma>') \<Rightarrow>
              (case (case source of None \<Rightarrow> arbitrary_element (node_list (\<sigma>' ! G'))
                                   | Some s \<Rightarrow> Inr s) of
                 Inl e \<Rightarrow> (Inl e, \<sigma>')
               | Inr s \<Rightarrow> (case walk_and_yield \<sigma>' G' s keys of (ys, \<sigma>'') \<Rightarrow> (Inr ys, \<sigma>'')))))"

definition eulerian_circuit ::
  "store \<Rightarrow> ref \<Rightarrow> vertex option \<Rightarrow> bool \<Rightarrow> (error + generator) \<times> store" where
  "eulerian_circuit \<sigma> G source keys = (Inr (Generator (eulerian_circuit_body G source keys)), \<sigma>)"

text \<open>
  In \<open>eulerian_path\<close> the start of the walk is \<open>_find_path_start\<close> of the working graph.
  \<open>_find_path_start\<close> returns \<open>None\<close> only where \<open>has_eulerian_path\<close> is false; the
  branch for \<open>None\<close> stands for the walk from \<open>None\<close>, which looks a vertex up that no
  graph has.
\<close>

definition eulerian_path_body ::
  "ref \<Rightarrow> vertex option \<Rightarrow> bool \<Rightarrow> store \<Rightarrow> (error + edge_tuple list) \<times> store" where
  "eulerian_path_body G source keys \<sigma> =
     (case has_eulerian_path (\<sigma> ! G) of
        Inl e \<Rightarrow> (Inl e, \<sigma>)
      | Inr False \<Rightarrow> (Inl (NetworkXError ''Graph has no Eulerian paths.''), \<sigma>)
      | Inr True \<Rightarrow>
         (case new_object \<sigma> (if is_directed (\<sigma> ! G) then reverse (\<sigma> ! G) else copy (\<sigma> ! G)) of
            (G', \<sigma>') \<Rightarrow>
              (case (case source of None \<Rightarrow> find_path_start (\<sigma>' ! G')
                                   | Some s \<Rightarrow> Inr (Some s)) of
                 Inl e \<Rightarrow> (Inl e, \<sigma>')
               | Inr None \<Rightarrow> (Inl (KeyError ''None''), \<sigma>')
               | Inr (Some s) \<Rightarrow>
                   (case walk_and_yield \<sigma>' G' s keys of (ys, \<sigma>'') \<Rightarrow> (Inr ys, \<sigma>'')))))"

definition eulerian_path ::
  "store \<Rightarrow> ref \<Rightarrow> vertex option \<Rightarrow> bool \<Rightarrow> (error + generator) \<times> store" where
  "eulerian_path \<sigma> G source keys = (Inr (Generator (eulerian_path_body G source keys)), \<sigma>)"

section \<open>The eulerizer\<close>

text \<open>\<open>nx.MultiGraph(G)\<close>: a new multigraph with the vertices and edges of \<open>G\<close>.\<close>

definition MultiGraph :: "graph \<Rightarrow> graph" where
  "MultiGraph G = G\<lparr>is_multigraph := True\<rparr>"

text \<open>\<open>itertools.combinations(xs, 2)\<close> and \<open>nx.utils.pairwise\<close>.\<close>

fun combinations2 :: "'a list \<Rightarrow> ('a \<times> 'a) list" where
  "combinations2 [] = []"
| "combinations2 (x # xs) = map (\<lambda>y. (x, y)) xs @ combinations2 xs"

definition pairwise_list :: "'a list \<Rightarrow> ('a \<times> 'a) list" where
  "pairwise_list xs = zip xs (tl xs)"

text \<open>
  The auxiliary weighted graph \<open>Gp\<close> is a simple undirected graph whose edges carry a
  weight and a path.  Adding an edge between two vertices that are already joined
  replaces the attributes of that edge.  Python's \<open>1/len(P)\<close> is taken as the exact
  quotient.
\<close>

type_synonym weighted_edge = "vertex \<times> vertex \<times> rat \<times> vertex list"

definition joins :: "vertex \<Rightarrow> vertex \<Rightarrow> weighted_edge \<Rightarrow> bool" where
  "joins u v e = (case e of (a, b, w, P) \<Rightarrow> (a = u \<and> b = v) \<or> (a = v \<and> b = u))"

definition gp_add_edge ::
  "weighted_edge list \<Rightarrow> vertex \<Rightarrow> vertex \<Rightarrow> rat \<Rightarrow> vertex list \<Rightarrow> weighted_edge list" where
  "gp_add_edge Gp u v w P =
     (if list_ex (joins u v) Gp
      then map (\<lambda>e. if joins u v e then (fst e, fst (snd e), w, P) else e) Gp
      else Gp @ [(u, v, w, P)])"

definition gp_lookup :: "weighted_edge list \<Rightarrow> vertex \<Rightarrow> vertex \<Rightarrow> weighted_edge option" where
  "gp_lookup Gp m n = find (joins m n) Gp"

text \<open>The loop that fills \<open>Gp\<close>; its outer variable \<open>n\<close> is the first vertex of the
  pair and its inner variable \<open>m\<close> the second.\<close>

fun build_Gp ::
  "(vertex \<times> vertex \<times> vertex list) list \<Rightarrow> weighted_edge list \<Rightarrow> error + weighted_edge list" where
  "build_Gp [] Gp = Inr Gp"
| "build_Gp ((n, m, P) # rest) Gp =
     (if n \<noteq> m then
        (if length P = 0 then Inl ZeroDivisionError
         else build_Gp rest (gp_add_edge Gp m n (1 / of_nat (length P)) P))
      else build_Gp rest Gp)"

text \<open>\<open>MultiGraph.add_edge\<close> gives the new edge the first key, counted from the number
  of edges already between the two vertices, that is not in use between them.\<close>

definition new_edge_key :: "graph \<Rightarrow> vertex \<Rightarrow> vertex \<Rightarrow> key" where
  "new_edge_key G u v =
     (let ks = map (\<lambda>(a, b, k). k) (filter (same_ends u v) (edge_list G));
          n = length ks
      in case filter (\<lambda>k. k \<notin> set ks) [n ..< 2 * n + 1] of [] \<Rightarrow> 2 * n + 1 | k # _ \<Rightarrow> k)"

definition add_node :: "graph \<Rightarrow> vertex \<Rightarrow> graph" where
  "add_node G v = (if v \<in> set (node_list G) then G else G\<lparr>node_list := node_list G @ [v]\<rparr>)"

definition add_edge :: "graph \<Rightarrow> vertex \<Rightarrow> vertex \<Rightarrow> graph" where
  "add_edge G u v =
     (let G1 = add_node (add_node G u) v
      in G1\<lparr>edge_list := edge_list G1 @ [(u, v, new_edge_key G u v)]\<rparr>)"

fun add_edges_from :: "graph \<Rightarrow> (vertex \<times> vertex) list \<Rightarrow> graph" where
  "add_edges_from G [] = G"
| "add_edges_from G ((u, v) # es) = add_edges_from (add_edge G u v) es"

text \<open>The last loop of \<open>eulerize\<close>, over the edges of the matching; it returns the error
  raised, if any, and the graph as the loop leaves it.\<close>

fun duplicate_paths ::
  "graph \<Rightarrow> weighted_edge list \<Rightarrow> (vertex \<times> vertex) list \<Rightarrow> error option \<times> graph" where
  "duplicate_paths G Gp [] = (None, G)"
| "duplicate_paths G Gp ((m, n) # rest) =
     (case gp_lookup Gp m n of
        None \<Rightarrow> (Some (KeyError ''path''), G)
      | Some (a, b, w, path) \<Rightarrow> duplicate_paths (add_edges_from G (pairwise_list path)) Gp rest)"

text \<open>
  Modelled from the spec: the shortest-path solver and the maximum-weight matching solver
  of section 6 are not part of euler.py; \<open>eulerize\<close> takes them as its first two
  arguments.  The matching is given as the list of its pairs.
\<close>

text \<open>The auxiliary weighted graph \<open>Gp\<close> that \<open>eulerize\<close> builds for the multigraph
  \<open>G\<close> and its vertices of odd degree.\<close>

definition auxiliary_graph ::
  "(graph \<Rightarrow> vertex \<Rightarrow> vertex \<Rightarrow> vertex list) \<Rightarrow> graph \<Rightarrow> vertex list \<Rightarrow>
     error + weighted_edge list" where
  "auxiliary_graph shortest_path G odd_degree_nodes =
     (let odd_deg_pairs_paths =
            map (\<lambda>(m, n). (m, n, shortest_path G m n)) (combinations2 odd_degree_nodes)
      in build_Gp odd_deg_pairs_paths [])"

definition eulerize ::
  "(graph \<Rightarrow> vertex \<Rightarrow> vertex \<Rightarrow> vertex list) \<Rightarrow>
   (weighted_edge list \<Rightarrow> (vertex \<times> vertex) list) \<Rightarrow> store \<Rightarrow> ref \<Rightarrow> (error + ref) \<times> store" where
  "eulerize shortest_path max_weight_matching \<sigma> G =
     (if is_directed (\<sigma> ! G)
      then (Inl (NetworkXNotImplemented ''not implemented for directed type''), \<sigma>)
      else if order (\<sigma> ! G) = 0
      then (Inl (NetworkXPointlessConcept ''Cannot Eulerize null graph''), \<sigma>)
      else case is_connected (\<sigma> ! G) of
        Inl e \<Rightarrow> (Inl e, \<sigma>)
      | Inr False \<Rightarrow> (Inl (NetworkXError ''G is not connected''), \<sigma>)
      | Inr True \<Rightarrow>
         (let odd_degree_nodes = filter (\<lambda>n. degree (\<sigma> ! G) n mod 2 = 1) (node_list (\<sigma> ! G))
          in case new_object \<sigma> (MultiGraph (\<sigma> ! G)) of
            (G', \<sigma>') \<Rightarrow>
              if length odd_degree_nodes = 0 then (Inr G', \<sigma>')
              else
                (case auxiliary_graph shortest_path (\<sigma>' ! G') odd_degree_nodes of
                   Inl e \<Rightarrow> (Inl e, \<sigma>')
                 | Inr Gp \<Rightarrow>
                     (case duplicate_paths (\<sigma>' ! G') Gp (max_weight_matching Gp) of
                        (Some e, H) \<Rightarrow> (Inl e, \<sigma>'[G' := H])
                      | (None, H) \<Rightarrow> (Inr G', \<sigma>'[G' := H])))))"

section \<open>Trails and edge multisets\<close>

text \<open>
  What the claims say of a trail.  An undirected edge is the same edge under both
  orientations, so the edges of an undirected graph are compared after ordering the two
  ends; the edges of a directed graph are compared as they are.
\<close>

definition oriented :: "bool \<Rightarrow> vertex \<times> vertex \<times> 'k \<Rightarrow> vertex \<times> vertex \<times> 'k" where
  "oriented d e = (case e of (a, b, k) \<Rightarrow> if d \<or> a \<le> b then (a, b, k) else (b, a, k))"

text \<open>The edges of a graph with their keys, and without.\<close>

definition keyed_edges :: "graph \<Rightarrow> (vertex \<times> vertex \<times> key option) multiset" where
  "keyed_edges G = mset (map (\<lambda>(a, b, k). oriented (is_directed G) (a, b, Some k)) (edge_list G))"

definition plain_edges :: "graph \<Rightarrow> (vertex \<times> vertex \<times> unit) multiset" where
  "plain_edges G = mset (map (\<lambda>(a, b, k). oriented (is_directed G) (a, b, ())) (edge_list G))"

text \<open>The same for the tuples of a trail.\<close>

fun ends :: "edge_tuple \<Rightarrow> vertex \<times> vertex" where
  "ends (Edge2 u v) = (u, v)"
| "ends (Edge3 u v k) = (u, v)"

definition trail_plain_edges :: "bool \<Rightarrow> edge_tuple list \<Rightarrow> (vertex \<times> vertex \<times> unit) multiset" where
  "trail_plain_edges d ys = mset (map (\<lambda>y. oriented d (fst (ends y), snd (ends y), ())) ys)"

text \<open>\<open>follow u ps\<close> walks along the pairs \<open>ps\<close> from \<open>u\<close>: it is the vertex reached
  when every pair starts where the one before ends, and \<open>None\<close> otherwise.\<close>

fun follow :: "vertex \<Rightarrow> (vertex \<times> vertex) list \<Rightarrow> vertex option" where
  "follow u [] = Some u"
| "follow u ((a, b) # ps) = (if a = u then follow b ps else None)"

text \<open>A closed walk: the pairs chain and the last one ends where the first one starts.  An
  open walk from \<open>u\<close> to \<open>v\<close>: the pairs chain from \<open>u\<close> to \<open>v\<close>.\<close>

definition closed_walk :: "(vertex \<times> vertex) list \<Rightarrow> bool" where
  "closed_walk ps = (case ps of [] \<Rightarrow> True | (a, b) # _ \<Rightarrow> follow a ps = Some a)"

definition walk_between :: "vertex \<Rightarrow> vertex \<Rightarrow> (vertex \<times> vertex) list \<Rightarrow> bool" where
  "walk_between u v ps = (ps \<noteq> [] \<and> follow u ps = Some v)"

section \<open>Example graphs\<close>

definition triangle :: graph where
  "triangle = \<lparr>is_directed = False, is_multigraph = False, node_list = [0, 1, 2],
     edge_list = [(0, 1, 0), (0, 2, 0), (1, 2, 0)]\<rparr>"

definition single_vertex :: graph where
  "single_vertex = \<lparr>is_directed = False, is_multigraph = False, node_list = [5],
     edge_list = []\<rparr>"

definition path2 :: graph where
  "path2 = \<lparr>is_directed = False, is_multigraph = False, node_list = [0, 1],
     edge_list = [(0, 1, 0)]\<rparr>"

definition path4 :: graph where
  "path4 = \<lparr>is_directed = False, is_multigraph = False, node_list = [0, 1, 2, 3],
     edge_list = [(0, 1, 0), (1, 2, 0), (2, 3, 0)]\<rparr>"

definition star :: graph where
  "star = \<lparr>is_directed = False, is_multigraph = False, node_list = [0, 1, 2, 3, 4],
     edge_list = [(0, 1, 0), (0, 2, 0), (0, 3, 0), (0, 4, 0)]\<rparr>"

definition two_triangles :: graph where
  "two_triangles = \<lparr>is_directed = False, is_multigraph = False, node_list = [0, 1, 2, 3, 4, 5],
     edge_list = [(0, 1, 0), (0, 2, 0), (1, 2, 0), (3, 4, 0), (3, 5, 0), (4, 5, 0)]\<rparr>"

definition null_graph :: graph where
  "null_graph = \<lparr>is_directed = False, is_multigraph = False, node_list = [], edge_list = []\<rparr>"

definition diamond :: graph where
  "diamond = \<lparr>is_directed = True, is_multigraph = False, node_list = [0, 1, 2, 3],
     edge_list = [(0, 1, 0), (0, 2, 0), (1, 3, 0), (2, 3, 0)]\<rparr>"

definition dipath :: graph where
  "dipath = \<lparr>is_directed = True, is_multigraph = False, node_list = [0, 1, 2],
     edge_list = [(0, 1, 0), (1, 2, 0)]\<rparr>"

definition dicycle :: graph where
  "dicycle = \<lparr>is_directed = True, is_multigraph = False, node_list = [0, 1, 2],
     edge_list = [(0, 1, 0), (1, 2, 0), (2, 0, 0)]\<rparr>"

text \<open>Two collaborators for the path on two vertices: the path between its ends, and
  the matching of its one pair.\<close>

definition direct_path :: "graph \<Rightarrow> vertex \<Rightarrow> vertex \<Rightarrow> vertex list" where
  "direct_path G m n = [m, n]"

definition all_pairs_matching :: "weighted_edge list \<Rightarrow> (vertex \<times> vertex) list" where
  "all_pairs_matching Gp = map (\<lambda>(a, b, w, P). (a, b)) Gp"

section \<open>The invariant of the walk\<close>

text \<open>
  The notions the proof of the walk uses.  The walk runs on a working graph \<open>W\<close> from a
  source \<open>s\<close>.  At every moment the edges of \<open>W\<close> are the edges still in the graph, the
  edges between neighbours on the stack, the edge between the last vertex popped and the
  vertex \<open>a\<close> it was reached from, and the edges yielded.  The degrees of the graph are
  balanced but for the top of the stack and \<open>a\<close>, so a vertex at the top with no edge
  left is \<open>a\<close>.  A vertex popped has no edge left.
\<close>

definition removes :: "graph \<Rightarrow> graph \<Rightarrow> edge \<Rightarrow> bool" where
  "removes R R' e \<longleftrightarrow> e \<in> set (edge_list R) \<and>
     mset (edge_list R) = mset (edge_list R') + {#e#} \<and>
     is_directed R' = is_directed R \<and> is_multigraph R' = is_multigraph R \<and>
     node_list R' = node_list R"

fun chain_edges :: "bool \<Rightarrow> (vertex \<times> key option) list \<Rightarrow> (vertex \<times> vertex \<times> key option) multiset" where
  "chain_edges d ((v, k) # (u, j) # st) = {#oriented d (u, v, k)#} + chain_edges d ((u, j) # st)"
| "chain_edges d st = {#}"

definition pending_edge ::
  "bool \<Rightarrow> vertex \<Rightarrow> vertex option \<Rightarrow> key option \<Rightarrow> (vertex \<times> vertex \<times> key option) multiset" where
  "pending_edge d a lv lk = (case lv of None \<Rightarrow> {#} | Some l \<Rightarrow> {#oriented d (a, l, lk)#})"

definition yielded_edges ::
  "bool \<Rightarrow> (vertex \<times> vertex \<times> key option) list \<Rightarrow> (vertex \<times> vertex \<times> key option) multiset" where
  "yielded_edges d ys = mset (map (\<lambda>(l, c, k). oriented d (c, l, k)) ys)"

definition dead :: "graph \<Rightarrow> vertex \<Rightarrow> bool" where
  "dead R x \<longleftrightarrow> in_degree R x = 0 \<and> out_degree R x = 0"

definition balanced :: "graph \<Rightarrow> vertex \<Rightarrow> vertex \<Rightarrow> bool" where
  "balanced R t a \<longleftrightarrow>
     (if is_directed R
      then \<forall>x. out_degree R x + (if x = a then 1 else 0) = in_degree R x + (if x = t then 1 else 0)
      else \<forall>x. odd (degree R x) \<longleftrightarrow> (x = t) \<noteq> (x = a))"

definition walk_inv ::
  "graph \<Rightarrow> vertex \<Rightarrow> vertex \<Rightarrow> graph \<Rightarrow> (vertex \<times> key option) list \<Rightarrow> vertex option \<Rightarrow>
     key option \<Rightarrow> (vertex \<times> vertex \<times> key option) list \<Rightarrow> bool" where
  "walk_inv W s a0 R st lv lk ys \<longleftrightarrow>
     is_directed R = is_directed W \<and>
     (st \<noteq> [] \<longrightarrow> fst (last st) = s \<and>
        (\<exists>a. balanced R (fst (hd st)) a \<and> (lv = None \<longrightarrow> a = a0) \<and>
           keyed_edges W = keyed_edges R + chain_edges (is_directed W) st
             + pending_edge (is_directed W) a lv lk + yielded_edges (is_directed W) ys)) \<and>
     (st = [] \<longrightarrow> lv = Some s \<and>
        keyed_edges W = keyed_edges R + yielded_edges (is_directed W) ys) \<and>
     (\<forall>l. lv = Some l \<longrightarrow> dead R l) \<and>
     (\<forall>(l, c, k) \<in> set ys. dead R l \<and> dead R c) \<and>
     (lv = None \<longrightarrow> ys = []) \<and>
     (\<forall>l. lv = Some l \<longrightarrow> follow a0 (map (\<lambda>(l, c, k). (l, c)) ys) = Some l)"

definition walk_post ::
  "graph \<Rightarrow> vertex \<Rightarrow> vertex \<Rightarrow> (vertex \<times> vertex \<times> key option) list \<times> graph \<Rightarrow> bool" where
  "walk_post W s a0 res \<longleftrightarrow>
     (case res of (ys, R) \<Rightarrow>
        is_directed R = is_directed W \<and>
        keyed_edges W = keyed_edges R + yielded_edges (is_directed W) ys \<and>
        dead R s \<and> (\<forall>(l, c, k) \<in> set ys. dead R l \<and> dead R c) \<and>
        follow a0 (map (\<lambda>(l, c, k). (l, c)) ys) = Some s)"

definition adjacent :: "graph \<Rightarrow> (vertex \<times> vertex) set" where
  "adjacent W = {(a, b). \<exists>k. (a, b, k) \<in> set (edge_list W) \<or> (b, a, k) \<in> set (edge_list W)}"

definition ends_in_nodes :: "graph \<Rightarrow> bool" where
  "ends_in_nodes W \<longleftrightarrow>
     list_all (\<lambda>(a, b, k). a \<in> set (node_list W) \<and> b \<in> set (node_list W)) (edge_list W)"

definition keys_zero :: "graph \<Rightarrow> bool" where
  "keys_zero R \<longleftrightarrow> list_all (\<lambda>(a, b, k). k = 0) (edge_list R)"

definition working_graph :: "graph \<Rightarrow> graph" where
  "working_graph G = (if is_directed G then reverse G else copy G)"

section \<open>Notions for the auxiliary graph\<close>

text \<open>The unordered pair of two vertices, and the edge that \<open>eulerize\<close> adds to \<open>Gp\<close>
  for a pair of vertices of odd degree.\<close>

definition upair :: "vertex \<times> vertex \<Rightarrow> vertex set" where
  "upair p = {fst p, snd p}"

definition aux_edge ::
  "(vertex \<Rightarrow> vertex \<Rightarrow> vertex list) \<Rightarrow> vertex \<times> vertex \<Rightarrow> weighted_edge" where
  "aux_edge sp p = (snd p, fst p, 1 / of_nat (length (sp (fst p) (snd p))), sp (fst p) (snd p))"

section \<open>The contracts of the collaborators of the eulerizer\<close>

text \<open>
  Modelled from the spec: what \<open>eulerize\<close> asks of the shortest-path solver, which is not
  part of euler.py.  The solver returns an ordered sequence of vertices from the source to
  the target, every two neighbours of it joined by an edge of the graph.  (That the
  sequence is a shortest one is not needed below.)
\<close>

definition is_path :: "graph \<Rightarrow> vertex \<Rightarrow> vertex \<Rightarrow> vertex list \<Rightarrow> bool" where
  "is_path G m n P \<longleftrightarrow>
     P \<noteq> [] \<and> hd P = m \<and> last P = n \<and>
     list_all (\<lambda>(u, v). list_ex (same_ends u v) (edge_list G)) (pairwise_list P)"

text \<open>
  Modelled from the spec: what \<open>eulerize\<close> asks of the maximum-weight matching solver,
  which is not part of euler.py.  A matching is a set of disjoint vertex pairs, every pair
  joined by an edge of the weighted graph; the solver returns one whose total weight no
  matching exceeds.
\<close>

definition covered :: "(vertex \<times> vertex) list \<Rightarrow> vertex list" where
  "covered M = concat (map (\<lambda>(u, v). [u, v]) M)"

definition is_matching :: "weighted_edge list \<Rightarrow> (vertex \<times> vertex) list \<Rightarrow> bool" where
  "is_matching Gp M \<longleftrightarrow> distinct (covered M) \<and> list_all (\<lambda>(u, v). list_ex (joins u v) Gp) M"

definition pair_weight :: "weighted_edge list \<Rightarrow> vertex \<times> vertex \<Rightarrow> rat" where
  "pair_weight Gp p = (case gp_lookup Gp (fst p) (snd p) of None \<Rightarrow> 0 | Some (a, b, w, P) \<Rightarrow> w)"

definition matching_weight :: "weighted_edge list \<Rightarrow> (vertex \<times> vertex) list \<Rightarrow> rat" where
  "matching_weight Gp M = sum_list (map (pair_weight Gp) M)"

definition is_max_weight_matching :: "weighted_edge list \<Rightarrow> (vertex \<times> vertex) list \<Rightarrow> bool" where
  "is_max_weight_matching Gp M \<longleftrightarrow>
     is_matching Gp M \<and> (\<forall>M'. is_matching Gp M' \<longrightarrow> matching_weight Gp M' \<le> matching_weight Gp M)"

text \<open>The vertices of odd degree, in the order of the vertices, as \<open>eulerize\<close> collects
  them; and the path on two vertices with its edge doubled.\<close>

definition odd_nodes :: "graph \<Rightarrow> vertex list" where
  "odd_nodes G = filter (\<lambda>n. degree G n mod 2 = 1) (node_list G)"

definition doubled_path2 :: graph where
  "doubled_path2 = \<lparr>is_directed = False, is_multigraph = True, node_list = [0, 1],
     edge_list = [(0, 1, 0), (0, 1, 1)]\<rparr>"

section \<open>The Eulerian predicate\<close>

text \<open>
  C5: for a directed graph \<open>is_eulerian\<close> is true exactly when every vertex has its
  in-degree equal to its out-degree and the graph is strongly connected; for an undirected
  graph exactly when every vertex has even degree and the graph is connected.
\<close>

theorem is_eulerian_iff:
  "is_eulerian G = Inr True \<longleftrightarrow>
     (if is_directed G
      then (\<forall>v \<in> set (node_list G). in_degree G v = out_degree G v) \<and>
           is_strongly_connected G = Inr True
      else (\<forall>v \<in> set (node_list G). even (degree G v)) \<and> is_connected G = Inr True)"
  by (simp add: is_eulerian_def list_all_iff even_iff_mod_2_eq_zero)

theorem is_eulerian_iff_witness:
  "even (degree triangle 0) \<and> even (degree triangle 1) \<and> even (degree triangle 2) \<and>
   is_connected triangle = Inr True \<and> is_eulerian triangle = Inr True"
proof -
  have c: "is_connected triangle = Inr True"
    by (simp add: triangle_def is_connected_def order_def covers_def arcs_def rev_arcs_def)
  have d: "even (degree triangle 0) \<and> even (degree triangle 1) \<and> even (degree triangle 2)"
    by (simp add: triangle_def degree_def in_degree_def out_degree_def)
  have n: "node_list triangle = [0, 1, 2]" and u: "\<not> is_directed triangle"
    by (simp_all add: triangle_def)
  from is_eulerian_iff [of triangle] c d u n show ?thesis by simp
qed

section \<open>Graphs without edges\<close>

lemma is_eulerian_nonempty:
  assumes "is_eulerian G = Inr True" shows "node_list G \<noteq> []"
  using assms
  by (auto simp: is_eulerian_def is_connected_def is_strongly_connected_def order_def
      split: if_splits)

lemma walk_degree_no_edges: "edge_list G = [] \<Longrightarrow> walk_degree G v = 0"
  by (simp add: walk_degree_def degree_def in_degree_def out_degree_def)

lemma walk_and_yield_no_edges:
  assumes "edge_list (\<sigma> ! g) = []" shows "fst (walk_and_yield \<sigma> g s keys) = []"
  using assms
  by (simp add: walk_and_yield_def simplegraph_eulerian_circuit_def
      multigraph_eulerian_circuit_def walk_degree_no_edges)

text \<open>
  C10: on a graph that \<open>is_eulerian\<close> accepts and that has no edge, \<open>eulerian_circuit\<close>
  yields the empty sequence and raises nothing.
\<close>

theorem eulerian_circuit_no_edges:
  assumes "is_eulerian (\<sigma> ! g) = Inr True" and "edge_list (\<sigma> ! g) = []"
  shows "fst (list_of (eulerian_circuit \<sigma> g None keys)) = Inr []"
proof -
  define W where "W = (if is_directed (\<sigma> ! g) then reverse (\<sigma> ! g) else copy (\<sigma> ! g))"
  from is_eulerian_nonempty [OF assms(1)] obtain v vs where n: "node_list (\<sigma> ! g) = v # vs"
    by (cases "node_list (\<sigma> ! g)") auto
  have e: "edge_list ((\<sigma> @ [W]) ! length \<sigma>) = []"
    using assms(2) by (simp add: W_def reverse_def copy_def)
  have nn: "node_list ((\<sigma> @ [W]) ! length \<sigma>) = v # vs"
    using n by (simp add: W_def reverse_def copy_def)
  have "fst (walk_and_yield (\<sigma> @ [W]) (length \<sigma>) v keys) = []"
    using e by (rule walk_and_yield_no_edges)
  then show ?thesis
    using assms(1) nn
    by (auto simp: eulerian_circuit_def eulerian_circuit_body_def list_of_def new_object_def arbitrary_element_def W_def [symmetric]
        split: prod.splits)
qed

theorem eulerian_circuit_no_edges_witness:
  "is_eulerian ([single_vertex] ! 0) = Inr True \<and> edge_list ([single_vertex] ! 0) = [] \<and>
   fst (list_of (eulerian_circuit [single_vertex] 0 None False)) = Inr []"
proof -
  have a: "is_eulerian ([single_vertex] ! 0) = Inr True"
    by (simp add: single_vertex_def is_eulerian_def degree_def in_degree_def out_degree_def
        is_connected_def order_def covers_def arcs_def rev_arcs_def)
  have b: "edge_list ([single_vertex] ! 0) = []" by (simp add: single_vertex_def)
  from eulerian_circuit_no_edges [OF a b] a b show ?thesis by simp
qed

section \<open>The caller's graph\<close>

lemmas graph_eval = degree_def in_degree_def out_degree_def is_connected_def
  is_weakly_connected_def is_strongly_connected_def order_def covers_def arcs_def rev_arcs_def
  is_eulerian_def has_eulerian_path_def count_where_def

lemma walk_and_yield_frame:
  "\<exists>W. snd (walk_and_yield \<sigma> g s keys) = \<sigma>[g := W]"
  by (auto simp: walk_and_yield_def split: prod.splits)

lemma eulerian_circuit_body_frame:
  "take (length \<sigma>) (snd (eulerian_circuit_body g source keys \<sigma>)) = \<sigma>"
proof -
  have "take (length \<sigma>) (snd (walk_and_yield (\<sigma> @ [W]) (length \<sigma>) s keys)) = \<sigma>" for W s
    using walk_and_yield_frame [of "\<sigma> @ [W]" "length \<sigma>" s keys] by auto
  then show ?thesis
    by (auto simp: eulerian_circuit_body_def new_object_def split: sum.splits bool.splits prod.splits option.splits)
       (metis snd_conv)+
qed

lemma eulerian_path_body_frame:
  "take (length \<sigma>) (snd (eulerian_path_body g source keys \<sigma>)) = \<sigma>"
proof -
  have "take (length \<sigma>) (snd (walk_and_yield (\<sigma> @ [W]) (length \<sigma>) s keys)) = \<sigma>" for W s
    using walk_and_yield_frame [of "\<sigma> @ [W]" "length \<sigma>" s keys] by auto
  then show ?thesis
    by (auto simp: eulerian_path_body_def new_object_def split: sum.splits bool.splits prod.splits option.splits)
       (metis snd_conv)+
qed

lemma take_nth_eq: "take n xs = ys \<Longrightarrow> g < length ys \<Longrightarrow> xs ! g = ys ! g"
  by (metis length_take min_less_iff_conj nth_take)

text \<open>
  C8: neither the call of \<open>eulerian_circuit\<close> or \<open>eulerian_path\<close> nor the consumption
  of the whole trail changes the caller's graph, nor any other object that existed before:
  the walk removes edges from a copy or from the reversed graph, a new object.  (The
  predicates \<open>is_eulerian\<close> and \<open>has_eulerian_path\<close> only read the graph they are
  given: they return a truth value and no store.)
\<close>

theorem circuit_and_path_leave_graph:
  assumes "g < length \<sigma>"
  shows "snd (eulerian_circuit \<sigma> g source keys) = \<sigma> \<and>
         snd (eulerian_path \<sigma> g source keys) = \<sigma> \<and>
         snd (list_of (eulerian_circuit \<sigma> g source keys)) ! g = \<sigma> ! g \<and>
         snd (list_of (eulerian_path \<sigma> g source keys)) ! g = \<sigma> ! g \<and>
         take (length \<sigma>) (snd (list_of (eulerian_circuit \<sigma> g source keys))) = \<sigma> \<and>
         take (length \<sigma>) (snd (list_of (eulerian_path \<sigma> g source keys))) = \<sigma>"
proof -
  have c: "list_of (eulerian_circuit \<sigma> g source keys) = eulerian_circuit_body g source keys \<sigma>"
    by (simp add: list_of_def eulerian_circuit_def)
  have p: "list_of (eulerian_path \<sigma> g source keys) = eulerian_path_body g source keys \<sigma>"
    by (simp add: list_of_def eulerian_path_def)
  show ?thesis
    using assms take_nth_eq [OF eulerian_circuit_body_frame [of \<sigma> g source keys] assms]
      take_nth_eq [OF eulerian_path_body_frame [of \<sigma> g source keys] assms]
    by (simp add: c p eulerian_circuit_body_frame eulerian_path_body_frame)
       (simp add: eulerian_circuit_def eulerian_path_def)
qed


theorem circuit_and_path_leave_graph_witness:
  "(0::nat) < length [triangle] \<and>
   snd (eulerian_circuit [triangle] 0 None False) = [triangle] \<and>
   snd (eulerian_path [triangle] 0 None False) = [triangle] \<and>
   snd (list_of (eulerian_circuit [triangle] 0 None False)) ! 0 = [triangle] ! 0 \<and>
   snd (list_of (eulerian_path [triangle] 0 None False)) ! 0 = [triangle] ! 0 \<and>
   take (length [triangle]) (snd (list_of (eulerian_circuit [triangle] 0 None False))) = [triangle] \<and>
   take (length [triangle]) (snd (list_of (eulerian_path [triangle] 0 None False))) = [triangle] \<and>
   fst (list_of (eulerian_circuit [triangle] 0 None False)) = Inr [Edge2 0 2, Edge2 2 1, Edge2 1 0]"
proof -
  have h: "(0::nat) < length [triangle]" by simp
  have e: "fst (list_of (eulerian_circuit [triangle] 0 None False))
      = Inr [Edge2 0 2, Edge2 2 1, Edge2 1 0]"
    by code_simp
  from circuit_and_path_leave_graph [OF h, of None False] h e show ?thesis by simp
qed

section \<open>The eulerizer and the caller's graph\<close>

text \<open>
  C9: \<open>eulerize\<close> does not change the caller's graph, nor any other object that existed
  before; the graph it returns, also where the input has no vertex of odd degree, is a new
  object.
\<close>

theorem eulerize_leaves_graph:
  assumes "g < length \<sigma>"
  shows "snd (eulerize shortest_path max_weight_matching \<sigma> g) ! g = \<sigma> ! g \<and>
         take (length \<sigma>) (snd (eulerize shortest_path max_weight_matching \<sigma> g)) = \<sigma> \<and>
         (case fst (eulerize shortest_path max_weight_matching \<sigma> g) of
            Inl e \<Rightarrow> True | Inr h \<Rightarrow> h \<noteq> g \<and> h = length \<sigma>)"
proof -
  have t: "take (length \<sigma>) (snd (eulerize shortest_path max_weight_matching \<sigma> g)) = \<sigma>"
    by (auto simp: eulerize_def new_object_def Let_def
        split: sum.splits bool.splits prod.splits option.splits)
  have r: "case fst (eulerize shortest_path max_weight_matching \<sigma> g) of
            Inl e \<Rightarrow> True | Inr h \<Rightarrow> h \<noteq> g \<and> h = length \<sigma>"
    using assms
    by (auto simp: eulerize_def new_object_def Let_def
        split: sum.splits bool.splits prod.splits option.splits if_splits)
  from take_nth_eq [OF t assms] t r show ?thesis by simp
qed

theorem eulerize_leaves_graph_witness:
  "(0::nat) < length [path2] \<and>
   eulerize direct_path all_pairs_matching [path2] 0 =
     (Inr 1, [path2, path2\<lparr>is_multigraph := True, edge_list := [(0, 1, 0), (0, 1, 1)]\<rparr>]) \<and>
   snd (eulerize direct_path all_pairs_matching [path2] 0) ! 0 = [path2] ! 0"
proof -
  have h: "(0::nat) < length [path2]" by simp
  have e: "eulerize direct_path all_pairs_matching [path2] 0 =
     (Inr 1, [path2, path2\<lparr>is_multigraph := True, edge_list := [(0, 1, 0), (0, 1, 1)]\<rparr>])"
    by code_simp
  from eulerize_leaves_graph [OF h, of direct_path all_pairs_matching] h e
  show ?thesis by simp
qed

section \<open>Precondition violations\<close>

text \<open>
  The star is not Eulerian and has no Eulerian path, and the calls of \<open>eulerian_circuit\<close>
  and \<open>eulerian_path\<close> on it raise nothing: they return a generator.
\<close>

theorem precondition_violation_at_call_counterexample:
  "is_eulerian ([star] ! 0) = Inr False \<and>
   has_eulerian_path ([star] ! 0) = Inr False \<and>
   fst (eulerian_circuit [star] 0 None False) = Inr (Generator (eulerian_circuit_body 0 None False)) \<and>
   fst (eulerian_path [star] 0 None False) = Inr (Generator (eulerian_path_body 0 None False))"
proof -
  have "is_eulerian ([star] ! 0) = Inr False" by code_simp
  moreover have "has_eulerian_path ([star] ! 0) = Inr False" by code_simp
  ultimately show ?thesis by (simp add: eulerian_circuit_def eulerian_path_def)
qed

text \<open>
  C4 (amended): every precondition violation fails with its own error condition, the five
  conditions differ, and the failure leaves the store as it was and yields nothing.
  \<open>eulerize\<close> fails at the call; its checks run in the order directed, empty,
  disconnected.  \<open>eulerian_circuit\<close> and \<open>eulerian_path\<close> return a generator at the
  call and fail when the generator is consumed.
\<close>

theorem precondition_violations:
  "(is_eulerian (\<sigma> ! g) = Inr False \<longrightarrow>
      eulerian_circuit \<sigma> g source keys = (Inr (Generator (eulerian_circuit_body g source keys)), \<sigma>) \<and>
      list_of (eulerian_circuit \<sigma> g source keys) = (Inl (NetworkXError ''G is not Eulerian.''), \<sigma>)) \<and>
   (has_eulerian_path (\<sigma> ! g) = Inr False \<longrightarrow>
      eulerian_path \<sigma> g source keys = (Inr (Generator (eulerian_path_body g source keys)), \<sigma>) \<and>
      list_of (eulerian_path \<sigma> g source keys) =
        (Inl (NetworkXError ''Graph has no Eulerian paths.''), \<sigma>)) \<and>
   (is_directed (\<sigma> ! g) \<longrightarrow>
      eulerize shortest_path max_weight_matching \<sigma> g =
        (Inl (NetworkXNotImplemented ''not implemented for directed type''), \<sigma>)) \<and>
   (\<not> is_directed (\<sigma> ! g) \<and> order (\<sigma> ! g) = 0 \<longrightarrow>
      eulerize shortest_path max_weight_matching \<sigma> g =
        (Inl (NetworkXPointlessConcept ''Cannot Eulerize null graph''), \<sigma>)) \<and>
   (\<not> is_directed (\<sigma> ! g) \<and> order (\<sigma> ! g) \<noteq> 0 \<and> is_connected (\<sigma> ! g) = Inr False \<longrightarrow>
      eulerize shortest_path max_weight_matching \<sigma> g =
        (Inl (NetworkXError ''G is not connected''), \<sigma>)) \<and>
   distinct [NetworkXError ''G is not Eulerian.'', NetworkXError ''Graph has no Eulerian paths.'',
     NetworkXNotImplemented ''not implemented for directed type'',
     NetworkXPointlessConcept ''Cannot Eulerize null graph'', NetworkXError ''G is not connected'']"
  by (simp add: eulerian_circuit_def eulerian_path_def list_of_def eulerian_circuit_body_def
      eulerian_path_body_def eulerize_def)

theorem precondition_violations_witness:
  "is_eulerian ([star] ! 0) = Inr False \<and>
   list_of (eulerian_circuit [star] 0 None False) = (Inl (NetworkXError ''G is not Eulerian.''), [star]) \<and>
   has_eulerian_path ([star] ! 0) = Inr False \<and>
   list_of (eulerian_path [star] 0 None False) =
     (Inl (NetworkXError ''Graph has no Eulerian paths.''), [star]) \<and>
   is_directed ([diamond] ! 0) \<and>
   eulerize direct_path all_pairs_matching [diamond] 0 =
     (Inl (NetworkXNotImplemented ''not implemented for directed type''), [diamond]) \<and>
   \<not> is_directed ([null_graph] ! 0) \<and> order ([null_graph] ! 0) = 0 \<and>
   eulerize direct_path all_pairs_matching [null_graph] 0 =
     (Inl (NetworkXPointlessConcept ''Cannot Eulerize null graph''), [null_graph]) \<and>
   \<not> is_directed ([two_triangles] ! 0) \<and> order ([two_triangles] ! 0) \<noteq> 0 \<and>
   is_connected ([two_triangles] ! 0) = Inr False \<and>
   eulerize direct_path all_pairs_matching [two_triangles] 0 =
     (Inl (NetworkXError ''G is not connected''), [two_triangles])"
proof -
  have a: "is_eulerian ([star] ! 0) = Inr False" by code_simp
  have b: "has_eulerian_path ([star] ! 0) = Inr False" by code_simp
  have c: "is_directed ([diamond] ! 0)" by (simp add: diamond_def)
  have d: "\<not> is_directed ([null_graph] ! 0) \<and> order ([null_graph] ! 0) = 0"
    by (simp add: null_graph_def order_def)
  have e: "\<not> is_directed ([two_triangles] ! 0) \<and> order ([two_triangles] ! 0) \<noteq> 0"
    by (simp add: two_triangles_def order_def)
  have f: "is_connected ([two_triangles] ! 0) = Inr False" by code_simp
  have 1: "list_of (eulerian_circuit [star] 0 None False)
      = (Inl (NetworkXError ''G is not Eulerian.''), [star])"
    using precondition_violations [of "[star]" 0 None False direct_path all_pairs_matching] a
    by blast
  have 2: "list_of (eulerian_path [star] 0 None False)
      = (Inl (NetworkXError ''Graph has no Eulerian paths.''), [star])"
    using precondition_violations [of "[star]" 0 None False direct_path all_pairs_matching] b
    by blast
  have 3: "eulerize direct_path all_pairs_matching [diamond] 0 =
     (Inl (NetworkXNotImplemented ''not implemented for directed type''), [diamond])"
    using precondition_violations [of "[diamond]" 0 None False direct_path all_pairs_matching] c
    by blast
  have 4: "eulerize direct_path all_pairs_matching [null_graph] 0 =
     (Inl (NetworkXPointlessConcept ''Cannot Eulerize null graph''), [null_graph])"
    using precondition_violations [of "[null_graph]" 0 None False direct_path all_pairs_matching] d
    by blast
  have 5: "eulerize direct_path all_pairs_matching [two_triangles] 0 =
     (Inl (NetworkXError ''G is not connected''), [two_triangles])"
    using precondition_violations [of "[two_triangles]" 0 None False direct_path all_pairs_matching]
      e f
    by blast
  from a b c d e f 1 2 3 4 5 show ?thesis by blast
qed

section \<open>The walk consumes every edge\<close>

lemma remove_first_mset:
  "\<exists>x \<in> set xs. P x \<Longrightarrow>
     \<exists>x. x \<in> set xs \<and> P x \<and> mset (remove_first P xs) = mset xs - {#x#}"
proof (induction xs)
  case Nil
  then show ?case by simp
next
  case (Cons y ys)
  show ?case
  proof (cases "P y")
    case True
    then show ?thesis by (intro exI [of _ y]) simp
  next
    case False
    with Cons.prems have "\<exists>x \<in> set ys. P x" by auto
    from Cons.IH [OF this] obtain x where
      x: "x \<in> set ys" "P x" "mset (remove_first P ys) = mset ys - {#x#}" by blast
    with False show ?thesis by (intro exI [of _ x]) auto
  qed
qed

lemma in_degree_mset:
  "in_degree G v = size (filter_mset (\<lambda>(a, b, k). b = v) (mset (edge_list G)))"
  by (simp add: in_degree_def flip: mset_filter)

lemma out_degree_mset:
  "out_degree G v = size (filter_mset (\<lambda>(a, b, k). a = v) (mset (edge_list G)))"
  by (simp add: out_degree_def flip: mset_filter)

text \<open>One step of the walk: the edge read at the top of the stack is in the graph, and
  removing it takes exactly that edge away.\<close>

lemma walk_edges_member:
  assumes "(u, n, k) \<in> set (walk_edges R c)"
  shows "u = c \<and> (\<exists>e \<in> set (edge_list R). snd (snd e) = k \<and>
           (if is_directed R then e = (c, n, k) else same_ends c n e))"
proof (cases "is_directed R")
  case True
  with assms show ?thesis by (auto simp: walk_edges_def out_edges_def)
next
  case False
  with assms obtain a b k' where e: "(a, b, k') \<in> set (edge_list R)"
    and m: "(u, n, k) \<in> set (if a = c then [(c, b, k')] else if b = c then [(c, a, k')] else [])"
    by (auto simp: walk_edges_def edges_at_def)
  from m have "u = c \<and> k' = k \<and> same_ends c n (a, b, k')"
    by (auto simp: same_ends_def split: if_splits)
  with e False show ?thesis by force
qed

lemma remove_edge_key_removes:
  assumes "walk_edges R c = (u, n, k) # rest"
  shows "\<exists>e. removes R (remove_edge_key R c n k) e \<and> snd (snd e) = k \<and>
           (if is_directed R then e = (c, n, k) else same_ends c n e)"
proof -
  let ?P = "\<lambda>(a, b, k'). k' = k \<and> (if is_directed R then a = c \<and> b = n else same_ends c n (a, b, k'))"
  have "(u, n, k) \<in> set (walk_edges R c)" using assms by simp
  from walk_edges_member [OF this] have "\<exists>e \<in> set (edge_list R). ?P e"
    by (fastforce split: if_splits)
  from remove_first_mset [OF this] obtain e where
    e: "e \<in> set (edge_list R)" "?P e"
       "mset (remove_first ?P (edge_list R)) = mset (edge_list R) - {#e#}" by blast
  have "removes R (remove_edge_key R c n k) e"
    using e by (simp add: removes_def remove_edge_key_def)
  moreover have "snd (snd e) = k \<and> (if is_directed R then e = (c, n, k) else same_ends c n e)"
    using e(2) by (cases e) (auto split: if_splits)
  ultimately show ?thesis by blast
qed

lemma removes_in_degree:
  "removes R R' (a, b, k) \<Longrightarrow> in_degree R x = in_degree R' x + (if b = x then 1 else 0)"
  by (simp add: removes_def in_degree_mset)

lemma removes_out_degree:
  "removes R R' (a, b, k) \<Longrightarrow> out_degree R x = out_degree R' x + (if a = x then 1 else 0)"
  by (simp add: removes_def out_degree_mset)

lemma removes_degree:
  "removes R R' (a, b, k) \<Longrightarrow>
     degree R x = degree R' x + (if a = x then 1 else 0) + (if b = x then 1 else 0)"
  by (simp add: degree_def removes_in_degree removes_out_degree)

lemma oriented_same_ends:
  "same_ends c n (a, b, k) \<Longrightarrow> oriented False (a, b, k') = oriented False (c, n, k')"
  by (auto simp: same_ends_def oriented_def)

lemma removes_keyed_edges:
  assumes "removes R R' e" "snd (snd e) = k"
    "if is_directed R then e = (c, n, k) else same_ends c n e"
  shows "keyed_edges R = keyed_edges R' + {#oriented (is_directed R) (c, n, Some k)#}"
proof -
  obtain a b where e: "e = (a, b, k)" using assms(2) by (cases e) auto
  have "oriented (is_directed R) (a, b, Some k) = oriented (is_directed R) (c, n, Some k)"
    using assms(3) e by (auto split: if_splits dest: oriented_same_ends)
  then show ?thesis
    using assms(1) e by (simp add: keyed_edges_def removes_def)
qed

lemma follow_snoc:
  "follow u (ps @ [(a, b)]) = (case follow u ps of None \<Rightarrow> None | Some e \<Rightarrow> if a = e then Some b else None)"
  by (induction u ps rule: follow.induct) auto

lemma walk_degree_edges:
  assumes "walk_degree R c \<noteq> 0" shows "walk_edges R c \<noteq> []"
proof (cases "is_directed R")
  case True
  with assms show ?thesis by (auto simp: walk_degree_def walk_edges_def out_degree_def out_edges_def)
next
  case False
  with assms have "in_degree R c \<noteq> 0 \<or> out_degree R c \<noteq> 0"
    by (auto simp: walk_degree_def degree_def)
  then obtain a b k where "(a, b, k) \<in> set (edge_list R)" "a = c \<or> b = c"
    by (fastforce simp: in_degree_def out_degree_def filter_empty_conv)
  then have "\<exists>e \<in> set (edge_list R). (case e of (a, b, k) \<Rightarrow>
      if a = c then [(c, b, k)] else if b = c then [(c, a, k)] else []) \<noteq> []"
    by (intro bexI [of _ "(a, b, k)"]) auto
  with False show ?thesis by (auto simp: walk_edges_def edges_at_def)
qed

lemma pop_forces_anchor:
  assumes "balanced R c a" "walk_degree R c = 0"
  shows "c = a \<and> dead R c \<and> balanced R u u"
proof (cases "is_directed R")
  case True
  with assms have o: "out_degree R c = 0"
    and b: "\<And>x. out_degree R x + (if x = a then 1 else 0) = in_degree R x + (if x = c then 1 else 0)"
    by (auto simp: walk_degree_def balanced_def)
  from b [of c] o have ca: "c = a" and i: "in_degree R c = 0" by (auto split: if_splits)
  from b ca have "\<And>x. out_degree R x = in_degree R x" by (auto split: if_splits)
  with True ca i o show ?thesis by (auto simp: dead_def balanced_def)
next
  case False
  with assms have o: "degree R c = 0"
    and b: "\<And>x. odd (degree R x) \<longleftrightarrow> (x = c) \<noteq> (x = a)"
    by (auto simp: walk_degree_def balanced_def)
  from b [of c] o have ca: "c = a" by auto
  with b False o show ?thesis by (auto simp: dead_def balanced_def degree_def)
qed

lemma removes_dead: "removes R R' e \<Longrightarrow> dead R x \<Longrightarrow> dead R' x"
  by (cases e) (auto simp: dead_def dest: removes_in_degree [where x = x] removes_out_degree [where x = x])

lemma push_balanced:
  assumes r: "removes R R' e" and m: "if is_directed R then e = (c, n, k) else same_ends c n e"
    and b: "balanced R c a"
  shows "balanced R' n a"
proof (cases "is_directed R")
  case True
  with m have e: "e = (c, n, k)" by simp
  have d': "is_directed R'" using r True by (simp add: removes_def)
  from b True have bb: "\<And>x. out_degree R x + (if x = a then 1 else 0)
      = in_degree R x + (if x = c then 1 else 0)" by (auto simp: balanced_def)
  have "out_degree R' x + (if x = a then 1 else 0) = in_degree R' x + (if x = n then 1 else 0)" for x
    using bb [of x] removes_in_degree [OF r [unfolded e], of x]
      removes_out_degree [OF r [unfolded e], of x]
    by (auto split: if_splits)
  with d' show ?thesis by (simp add: balanced_def)
next
  case False
  obtain p q k' where e: "e = (p, q, k')" by (cases e) auto
  with m False have pq: "(p = c \<and> q = n) \<or> (p = n \<and> q = c)" by (auto simp: same_ends_def)
  have d': "\<not> is_directed R'" using r False by (simp add: removes_def)
  from b False have bb: "\<And>x. odd (degree R x) \<longleftrightarrow> (x = c) \<noteq> (x = a)"
    by (auto simp: balanced_def)
  have "odd (degree R' x) \<longleftrightarrow> (x = n) \<noteq> (x = a)" for x
    using bb [of x] removes_degree [OF r [unfolded e], of x] pq
    by (auto split: if_splits)
  with d' show ?thesis by (simp add: balanced_def)
qed

lemma inv_push:
  assumes inv: "walk_inv W s a0 R ((c, ck) # st) lv lk ys"
    and w: "walk_edges R c = (u, n, k) # rest"
  shows "walk_inv W s a0 (remove_edge_key R c n k) ((n, Some k) # (c, ck) # st) lv lk ys"
proof -
  let ?R' = "remove_edge_key R c n k"
  let ?d = "is_directed W"
  from remove_edge_key_removes [OF w] obtain e where r: "removes R ?R' e"
    and ek: "snd (snd e) = k"
    and m: "if is_directed R then e = (c, n, k) else same_ends c n e" by blast
  from inv have d: "is_directed R = ?d" by (simp add: walk_inv_def)
  from inv obtain a where a: "balanced R c a" "lv = None \<longrightarrow> a = a0"
    "keyed_edges W = keyed_edges R + chain_edges ?d ((c, ck) # st)
       + pending_edge ?d a lv lk + yielded_edges ?d ys"
    by (auto simp: walk_inv_def)
  have d': "is_directed ?R' = ?d" using r d by (simp add: removes_def)
  have b': "balanced ?R' n a" by (rule push_balanced [OF r m a(1)])
  have k: "keyed_edges R = keyed_edges ?R' + {#oriented ?d (c, n, Some k)#}"
    using removes_keyed_edges [OF r ek m] d by simp
  have acc: "keyed_edges W = keyed_edges ?R' + chain_edges ?d ((n, Some k) # (c, ck) # st)
       + pending_edge ?d a lv lk + yielded_edges ?d ys"
    using a(3) k by simp
  have l: "fst (last ((n, Some k) # (c, ck) # st)) = s"
    using inv by (simp add: walk_inv_def)
  have dd: "(\<forall>l. lv = Some l \<longrightarrow> dead ?R' l) \<and> (\<forall>(l, c, k) \<in> set ys. dead ?R' l \<and> dead ?R' c)"
    using inv removes_dead [OF r] by (fastforce simp: walk_inv_def)
  have f: "(lv = None \<longrightarrow> ys = []) \<and>
      (\<forall>l. lv = Some l \<longrightarrow> follow a0 (map (\<lambda>(l, c, k). (l, c)) ys) = Some l)"
    using inv by (simp add: walk_inv_def)
  show ?thesis
    unfolding walk_inv_def using d' b' a(2) acc l dd f by auto
qed

lemma inv_pop:
  assumes inv: "walk_inv W s a0 R ((c, ck) # st) lv lk ys"
    and w: "walk_degree R c = 0"
  shows "walk_inv W s a0 R st (Some c) ck
           (case lv of None \<Rightarrow> ys | Some l \<Rightarrow> ys @ [(l, c, lk)])"
proof -
  let ?d = "is_directed W"
  let ?ys = "case lv of None \<Rightarrow> ys | Some l \<Rightarrow> ys @ [(l, c, lk)]"
  from inv have d: "is_directed R = ?d" by (simp add: walk_inv_def)
  from inv obtain a where a: "balanced R c a" "lv = None \<longrightarrow> a = a0"
    "keyed_edges W = keyed_edges R + chain_edges ?d ((c, ck) # st)
       + pending_edge ?d a lv lk + yielded_edges ?d ys"
    by (auto simp: walk_inv_def)
  from pop_forces_anchor [OF a(1) w] have ca: "c = a" and dc: "dead R c"
    and bal: "\<And>u. balanced R u u" by auto
  have y: "yielded_edges ?d ?ys = pending_edge ?d a lv lk + yielded_edges ?d ys"
    using ca by (cases lv) (auto simp: yielded_edges_def pending_edge_def)
  have dd: "(\<forall>(l, c, k) \<in> set ?ys. dead R l \<and> dead R c)"
    using inv dc by (cases lv) (auto simp: walk_inv_def)
  have f: "follow a0 (map (\<lambda>(l, c, k). (l, c)) ?ys) = Some c"
  proof (cases lv)
    case None
    with inv have "ys = []" by (simp add: walk_inv_def)
    with None a(2) ca show ?thesis by simp
  next
    case (Some l)
    with inv have "follow a0 (map (\<lambda>(l, c, k). (l, c)) ys) = Some l" by (simp add: walk_inv_def)
    with Some show ?thesis by (simp add: follow_snoc)
  qed
  show ?thesis
  proof (cases st)
    case Nil
    have "c = s" using inv Nil by (simp add: walk_inv_def)
    moreover have "keyed_edges W = keyed_edges R + yielded_edges ?d ?ys"
      using a(3) y Nil by simp
    ultimately show ?thesis
      unfolding walk_inv_def using d dc dd f Nil by auto
  next
    case (Cons p st')
    obtain u j where p: "p = (u, j)" by (cases p) auto
    have l: "fst (last st) = s" using inv Cons by (simp add: walk_inv_def)
    have "keyed_edges W = keyed_edges R + chain_edges ?d st
       + pending_edge ?d u (Some c) ck + yielded_edges ?d ?ys"
      using a(3) y Cons p by (simp add: pending_edge_def)
    with bal [of u] have "\<exists>a. balanced R (fst (hd st)) a \<and> (Some c = None \<longrightarrow> a = a0) \<and>
       keyed_edges W = keyed_edges R + chain_edges ?d st
       + pending_edge ?d a (Some c) ck + yielded_edges ?d ?ys"
      using Cons p by (intro exI [of _ u]) simp
    then show ?thesis
      unfolding walk_inv_def using d dc dd f l Cons by auto
  qed
qed

lemma walk_inv_post:
  "walk_inv W s a0 R st lv lk ys \<Longrightarrow>
     walk_post W s a0 (multigraph_eulerian_circuit_loop R st lv lk ys)"
proof (induction R st lv lk ys rule: multigraph_eulerian_circuit_loop.induct)
  case (1 G last_vertex last_key yielded)
  then show ?case by (auto simp: walk_inv_def walk_post_def)
next
  case (2 G current_vertex current_key vertex_stack last_vertex last_key yielded)
  show ?case
  proof (cases "walk_degree G current_vertex = 0")
    case True
    from inv_pop [OF "2.prems" True] "2.IH"(1) [OF True] True show ?thesis by simp
  next
    case False
    from walk_degree_edges [OF False] obtain u n k rest where
      w: "walk_edges G current_vertex = (u, n, k) # rest"
      by (cases "walk_edges G current_vertex") auto
    from inv_push [OF "2.prems" w] "2.IH"(2) [OF False w refl refl] False w
    show ?thesis by simp
  qed
qed

lemma oriented_eq_ends:
  assumes "oriented d (a, b, k) = oriented d (a', b', k')"
  shows "k = k' \<and> ((a = a' \<and> b = b') \<or> (a = b' \<and> b = a'))"
  using assms by (auto simp: oriented_def split: if_splits)

lemma edge_not_dead:
  assumes "(a, b, k) \<in> set (edge_list R)" shows "\<not> dead R a \<and> \<not> dead R b"
proof -
  have "filter (\<lambda>(x, y, j). x = a) (edge_list R) \<noteq> []"
    using assms by (auto simp: filter_empty_conv)
  moreover have "filter (\<lambda>(x, y, j). y = b) (edge_list R) \<noteq> []"
    using assms by (auto simp: filter_empty_conv)
  ultimately show ?thesis by (simp add: dead_def in_degree_def out_degree_def)
qed

lemma keyed_edges_member:
  "e \<in># keyed_edges R \<Longrightarrow>
     \<exists>a b k. (a, b, k) \<in> set (edge_list R) \<and> e = oriented (is_directed R) (a, b, Some k)"
  by (auto simp: keyed_edges_def)

lemma yielded_edges_member:
  "e \<in># yielded_edges d ys \<Longrightarrow> \<exists>l c k. (l, c, k) \<in> set ys \<and> e = oriented d (c, l, k)"
  by (auto simp: yielded_edges_def)

lemma dead_closed:
  assumes post: "walk_post W s a0 (ys, R)" and x: "dead R x" and xy: "(x, y) \<in> adjacent W"
  shows "dead R y"
proof -
  let ?d = "is_directed W"
  from post have d: "is_directed R = ?d"
    and acc: "keyed_edges W = keyed_edges R + yielded_edges ?d ys"
    and dy: "\<And>l c k. (l, c, k) \<in> set ys \<Longrightarrow> dead R l \<and> dead R c"
    by (auto simp: walk_post_def)
  from xy obtain a b k where e: "(a, b, k) \<in> set (edge_list W)"
    and ab: "(a = x \<and> b = y) \<or> (a = y \<and> b = x)"
    by (auto simp: adjacent_def)
  have "oriented ?d (a, b, Some k) \<in># keyed_edges W"
    using e by (force simp: keyed_edges_def)
  with acc have "oriented ?d (a, b, Some k) \<in># keyed_edges R
      \<or> oriented ?d (a, b, Some k) \<in># yielded_edges ?d ys" by simp
  then show ?thesis
  proof
    assume "oriented ?d (a, b, Some k) \<in># keyed_edges R"
    from keyed_edges_member [OF this] d obtain a' b' k' where
      e': "(a', b', k') \<in> set (edge_list R)"
      and o: "oriented ?d (a, b, Some k) = oriented ?d (a', b', Some k')" by auto
    from oriented_eq_ends [OF o] ab have "x = a' \<or> x = b'" by auto
    with edge_not_dead [OF e'] x show ?thesis by auto
  next
    assume "oriented ?d (a, b, Some k) \<in># yielded_edges ?d ys"
    from yielded_edges_member [OF this] obtain l c k' where
      m: "(l, c, k') \<in> set ys" and o: "oriented ?d (a, b, Some k) = oriented ?d (c, l, k')"
      by auto
    from oriented_eq_ends [OF o] ab have "y = c \<or> y = l" by auto
    with dy [OF m] show ?thesis by auto
  qed
qed

lemma dead_reachable:
  assumes post: "walk_post W s a0 (ys, R)" and r: "(s, v) \<in> (adjacent W)\<^sup>*"
  shows "dead R v"
  using r
proof (induction rule: rtrancl_induct)
  case base
  from post show ?case by (simp add: walk_post_def)
next
  case (step y z)
  from dead_closed [OF post step.IH step.hyps(2)] show ?case .
qed

lemma walk_consumes_all:
  assumes post: "walk_post W s a0 (ys, R)"
    and wf: "ends_in_nodes W"
    and conn: "\<forall>v \<in> set (node_list W). (s, v) \<in> (adjacent W)\<^sup>*"
  shows "edge_list R = []"
proof (rule ccontr)
  let ?d = "is_directed W"
  assume "edge_list R \<noteq> []"
  then obtain a b k rest where e: "edge_list R = (a, b, k) # rest"
    by (cases "edge_list R") auto
  then have m: "(a, b, k) \<in> set (edge_list R)" by simp
  from post have d: "is_directed R = ?d"
    and acc: "keyed_edges W = keyed_edges R + yielded_edges ?d ys"
    by (auto simp: walk_post_def)
  have "oriented ?d (a, b, Some k) \<in># keyed_edges R"
    using m d by (force simp: keyed_edges_def)
  with acc have "oriented ?d (a, b, Some k) \<in># keyed_edges W" by simp
  from keyed_edges_member [OF this] obtain a' b' k' where
    e': "(a', b', k') \<in> set (edge_list W)"
    and o: "oriented ?d (a, b, Some k) = oriented ?d (a', b', Some k')" by auto
  from e' wf have "a' \<in> set (node_list W)" by (auto simp: ends_in_nodes_def list_all_iff)
  with conn have "(s, a') \<in> (adjacent W)\<^sup>*" by blast
  from dead_reachable [OF post this] have "dead R a'" .
  moreover from oriented_eq_ends [OF o] have "a' = a \<or> a' = b" by auto
  ultimately show False using edge_not_dead [OF m] by auto
qed

lemma walk_inv_init:
  assumes "balanced W s a0"
  shows "walk_inv W s a0 W [(s, None)] None None []"
  using assms by (auto simp: walk_inv_def pending_edge_def yielded_edges_def)

lemma multigraph_walk_correct:
  assumes b: "balanced W s a0" and wf: "ends_in_nodes W"
    and conn: "\<forall>v \<in> set (node_list W). (s, v) \<in> (adjacent W)\<^sup>*"
    and res: "multigraph_eulerian_circuit W s = (ys, R)"
  shows "edge_list R = [] \<and> yielded_edges (is_directed W) ys = keyed_edges W \<and>
         follow a0 (map (\<lambda>(l, c, k). (l, c)) ys) = Some s"
proof -
  from walk_inv_post [OF walk_inv_init [OF b]] res
  have post: "walk_post W s a0 (ys, R)" by (simp add: multigraph_eulerian_circuit_def)
  from walk_consumes_all [OF post wf conn] have e: "edge_list R = []" .
  with post show ?thesis by (simp add: walk_post_def keyed_edges_def)
qed

subsection \<open>Connectivity\<close>

lemma reach_sound:
  "v \<in> set (reach n E S) \<Longrightarrow> \<exists>u \<in> set S. (u, v) \<in> (set E)\<^sup>*"
proof (induction n arbitrary: S)
  case 0
  then show ?case by auto
next
  case (Suc n)
  from Suc.IH [OF Suc.prems [simplified]] obtain u where
    u: "u \<in> set (S @ map snd (filter (\<lambda>(a, b). a \<in> set S) E))" and uv: "(u, v) \<in> (set E)\<^sup>*"
    by blast
  show ?case
  proof (cases "u \<in> set S")
    case True
    with uv show ?thesis by blast
  next
    case False
    with u obtain a where "a \<in> set S" "(a, u) \<in> set E" by auto
    with uv have "(a, v) \<in> (set E)\<^sup>*" by (meson converse_rtrancl_into_rtrancl)
    with \<open>a \<in> set S\<close> show ?thesis by blast
  qed
qed

lemma covers_reachable:
  assumes "covers G E" and "set E \<subseteq> adjacent G" and "v \<in> set (node_list G)"
  shows "(hd (node_list G), v) \<in> (adjacent G)\<^sup>*"
proof -
  from assms(1,3) have "v \<in> set (reach (order G) E [hd (node_list G)])"
    by (simp add: covers_def list_all_iff)
  from reach_sound [OF this] have "(hd (node_list G), v) \<in> (set E)\<^sup>*" by simp
  with rtrancl_mono [OF assms(2)] show ?thesis by blast
qed

lemma arcs_adjacent: "set (arcs G) \<subseteq> adjacent G" "set (arcs G @ rev_arcs G) \<subseteq> adjacent G"
  by (auto simp: arcs_def rev_arcs_def adjacent_def)

lemma edge_list_reverse:
  "(a, b, k) \<in> set (edge_list (reverse G)) \<longleftrightarrow> (b, a, k) \<in> set (edge_list G)"
  by (force simp: reverse_def)

lemma adjacent_reverse: "adjacent (reverse G) = adjacent G"
  unfolding adjacent_def edge_list_reverse by auto

lemma adjacent_sym: "(a, b) \<in> (adjacent G)\<^sup>* \<Longrightarrow> (b, a) \<in> (adjacent G)\<^sup>*"
proof -
  have "sym (adjacent G)" by (auto simp: sym_def adjacent_def)
  then show "(a, b) \<in> (adjacent G)\<^sup>* \<Longrightarrow> (b, a) \<in> (adjacent G)\<^sup>*"
    by (meson sym_rtrancl symD)
qed

lemma is_eulerian_connected:
  assumes "is_eulerian G = Inr True" and "v \<in> set (node_list G)"
  shows "(hd (node_list G), v) \<in> (adjacent G)\<^sup>*"
proof (cases "is_directed G")
  case True
  with assms(1) have "covers G (arcs G)"
    by (auto simp: is_eulerian_def is_strongly_connected_def split: if_splits)
  from covers_reachable [OF this arcs_adjacent(1) assms(2)] show ?thesis .
next
  case False
  with assms(1) have "covers G (arcs G @ rev_arcs G)"
    by (auto simp: is_eulerian_def is_connected_def split: if_splits)
  from covers_reachable [OF this arcs_adjacent(2) assms(2)] show ?thesis .
qed

subsection \<open>Degrees of an Eulerian graph\<close>

lemma degree_outside:
  assumes "ends_in_nodes G" and "x \<notin> set (node_list G)"
  shows "in_degree G x = 0 \<and> out_degree G x = 0"
  using assms
  by (auto simp: ends_in_nodes_def list_all_iff in_degree_def out_degree_def filter_empty_conv)

lemma reverse_degrees:
  "in_degree (reverse G) x = out_degree G x" "out_degree (reverse G) x = in_degree G x"
  "is_directed (reverse G) = is_directed G" "node_list (reverse G) = node_list G"
proof -
  have "length (filter (\<lambda>(a, b, k). b = x) (map (\<lambda>(a, b, k). (b, a, k)) es))
      = length (filter (\<lambda>(a, b, k). a = x) es)"
    and "length (filter (\<lambda>(a, b, k). a = x) (map (\<lambda>(a, b, k). (b, a, k)) es))
      = length (filter (\<lambda>(a, b, k). b = x) es)" for es :: "edge list"
    by (induction es) auto
  then show "in_degree (reverse G) x = out_degree G x" "out_degree (reverse G) x = in_degree G x"
    by (simp_all add: reverse_def in_degree_def out_degree_def)
  show "is_directed (reverse G) = is_directed G" "node_list (reverse G) = node_list G"
    by (simp_all add: reverse_def)
qed

lemma ends_in_nodes_reverse: "ends_in_nodes (reverse G) = ends_in_nodes G"
  by (auto simp: ends_in_nodes_def reverse_def list_all_iff)

lemma is_eulerian_balanced:
  assumes e: "is_eulerian G = Inr True" and wf: "ends_in_nodes G"
  shows "balanced (if is_directed G then reverse G else copy G) s s"
proof (cases "is_directed G")
  case True
  with e have n: "\<forall>x \<in> set (node_list G). in_degree G x = out_degree G x"
    by (auto simp: is_eulerian_def list_all_iff split: if_splits)
  have "in_degree G x = out_degree G x" for x
    using n degree_outside [OF wf, of x] by (cases "x \<in> set (node_list G)") auto
  with True show ?thesis by (simp add: balanced_def reverse_degrees)
next
  case False
  with e have n: "\<forall>x \<in> set (node_list G). even (degree G x)"
    by (auto simp: is_eulerian_def list_all_iff even_iff_mod_2_eq_zero split: if_splits)
  have "even (degree G x)" for x
    using n degree_outside [OF wf, of x] by (cases "x \<in> set (node_list G)") (auto simp: degree_def)
  with False show ?thesis by (simp add: balanced_def copy_def)
qed

subsection \<open>The simple walk is the multigraph walk without the keys\<close>

lemma remove_first_cong:
  "(\<And>x. x \<in> set xs \<Longrightarrow> P x = Q x) \<Longrightarrow> remove_first P xs = remove_first Q xs"
  by (induction xs) auto

lemma remove_first_subset: "set (remove_first P xs) \<subseteq> set xs"
  by (induction xs) auto

lemma keys_zero_remove:
  assumes "keys_zero R" and "walk_edges R c = (u, n, k) # rest"
  shows "remove_edge R c n = remove_edge_key R c n k \<and> keys_zero (remove_edge_key R c n k)"
proof -
  have "(u, n, k) \<in> set (walk_edges R c)" using assms(2) by simp
  from walk_edges_member [OF this] obtain e where "e \<in> set (edge_list R)" "snd (snd e) = k"
    by blast
  with assms(1) have k: "k = 0" by (auto simp: keys_zero_def list_all_iff)
  have "remove_first (\<lambda>(a, b, k'). if is_directed R then a = c \<and> b = n else same_ends c n (a, b, k'))
          (edge_list R)
      = remove_first (\<lambda>(a, b, k'). k' = k \<and>
          (if is_directed R then a = c \<and> b = n else same_ends c n (a, b, k'))) (edge_list R)"
    using assms(1) k by (intro remove_first_cong) (auto simp: keys_zero_def list_all_iff)
  then have "remove_edge R c n = remove_edge_key R c n k"
    by (simp add: remove_edge_def remove_edge_key_def)
  moreover have "keys_zero (remove_edge_key R c n k)"
    using assms(1) remove_first_subset
    by (fastforce simp: keys_zero_def list_all_iff remove_edge_key_def)
  ultimately show ?thesis by simp
qed

lemma simple_walk_is_multigraph_walk:
  "keys_zero R \<Longrightarrow>
     simplegraph_eulerian_circuit_loop R (map fst st) lv (map (\<lambda>(l, c, k). (l, c)) ys) =
       (case multigraph_eulerian_circuit_loop R st lv lk ys of
          (ys', R') \<Rightarrow> (map (\<lambda>(l, c, k). (l, c)) ys', R'))"
proof (induction R st lv lk ys rule: multigraph_eulerian_circuit_loop.induct)
  case (1 G last_vertex last_key yielded)
  then show ?case by simp
next
  case (2 G current_vertex current_key vertex_stack last_vertex last_key yielded)
  show ?case
  proof (cases "walk_degree G current_vertex = 0")
    case True
    have "map (\<lambda>(l, c, k). (l, c))
            (case last_vertex of None \<Rightarrow> yielded
             | Some l \<Rightarrow> yielded @ [(l, current_vertex, last_key)])
        = (case last_vertex of None \<Rightarrow> map (\<lambda>(l, c, k). (l, c)) yielded
           | Some l \<Rightarrow> map (\<lambda>(l, c, k). (l, c)) yielded @ [(l, current_vertex)])"
      by (cases last_vertex) auto
    with "2.IH"(1) [OF True "2.prems"] True show ?thesis by simp
  next
    case False
    from walk_degree_edges [OF False] obtain u n k rest where
      w: "walk_edges G current_vertex = (u, n, k) # rest"
      by (cases "walk_edges G current_vertex") auto
    from keys_zero_remove [OF "2.prems" w]
    have r: "remove_edge G current_vertex n = remove_edge_key G current_vertex n k"
      and z: "keys_zero (remove_edge_key G current_vertex n k)" by auto
    have s: "simplegraph_eulerian_circuit_loop G
          (map fst ((current_vertex, current_key) # vertex_stack)) last_vertex
          (map (\<lambda>(l, c, k). (l, c)) yielded)
        = simplegraph_eulerian_circuit_loop (remove_edge_key G current_vertex n k)
          (map fst ((n, Some k) # (current_vertex, current_key) # vertex_stack)) last_vertex
          (map (\<lambda>(l, c, k). (l, c)) yielded)"
      using False w r
      by (simp del: simplegraph_eulerian_circuit_loop.simps
          add: simplegraph_eulerian_circuit_loop.simps(2) [of G current_vertex])
    have m: "multigraph_eulerian_circuit_loop G
          ((current_vertex, current_key) # vertex_stack) last_vertex last_key yielded
        = multigraph_eulerian_circuit_loop (remove_edge_key G current_vertex n k)
          ((n, Some k) # (current_vertex, current_key) # vertex_stack) last_vertex last_key yielded"
      using False w
      by (simp del: multigraph_eulerian_circuit_loop.simps
          add: multigraph_eulerian_circuit_loop.simps(2) [of G current_vertex])
    from "2.IH"(2) [OF False w refl refl z] show ?thesis
      unfolding s m .
  qed
qed

lemma simple_walk_multigraph:
  assumes "keys_zero W"
  shows "simplegraph_eulerian_circuit W s =
    (case multigraph_eulerian_circuit W s of (ys, R) \<Rightarrow> (map (\<lambda>(l, c, k). (l, c)) ys, R))"
  using simple_walk_is_multigraph_walk [OF assms, of "[(s, None)]" None "[]" None]
  by (simp add: simplegraph_eulerian_circuit_def multigraph_eulerian_circuit_def)

lemma wf_graph_ends: "wf_graph G \<Longrightarrow> ends_in_nodes G"
  by (simp add: wf_graph_def ends_in_nodes_def)

lemma wf_graph_keys: "wf_graph G \<Longrightarrow> \<not> is_multigraph G \<Longrightarrow> keys_zero G"
  by (simp add: wf_graph_def keys_zero_def)

lemma keys_zero_reverse: "keys_zero (reverse G) = keys_zero G"
  by (auto simp: keys_zero_def reverse_def list_all_iff)

lemma plain_of_keyed:
  assumes "yielded_edges (is_directed G) ys
      = keyed_edges (if is_directed G then reverse G else copy G)"
  shows "mset (map (\<lambda>(l, c, k). oriented (is_directed G) (l, c, ())) ys) = plain_edges G"
proof (cases "is_directed G")
  case True
  let ?h = "\<lambda>(a, b, k :: key option). (b, a, ())"
  from assms True have "image_mset ?h (yielded_edges True ys) = image_mset ?h (keyed_edges (reverse G))"
    by simp
  moreover have "image_mset ?h (yielded_edges True ys)
      = mset (map (\<lambda>(l, c, k). oriented True (l, c, ())) ys)"
    unfolding yielded_edges_def by (induction ys) (auto simp: oriented_def)
  moreover have "image_mset ?h (mset (map (\<lambda>(a, b, k). oriented True (a, b, Some k))
          (map (\<lambda>(a, b, k). (b, a, k)) es)))
      = mset (map (\<lambda>(a, b, k). oriented True (a, b, ())) es)" for es :: "edge list"
    by (induction es) (auto simp: oriented_def)
  then have "image_mset ?h (keyed_edges (reverse G)) = plain_edges G"
    using True by (simp add: keyed_edges_def plain_edges_def reverse_def)
  ultimately show ?thesis using True by simp
next
  case False
  let ?h = "\<lambda>(a, b, k :: key option). (a, b, ())"
  have h: "?h (oriented False (a, b, k)) = oriented False (a, b, ())" for a b k
    by (simp add: oriented_def)
  have o: "oriented False (c, l, ()) = oriented False (l, c, ())" for c l
    by (auto simp: oriented_def)
  from assms False have "image_mset ?h (yielded_edges False ys) = image_mset ?h (keyed_edges G)"
    by (simp add: copy_def)
  moreover have "image_mset ?h (yielded_edges False ys)
      = mset (map (\<lambda>(l, c, k). oriented False (l, c, ())) ys)"
    unfolding yielded_edges_def by (induction ys) (auto simp: h o)
  moreover have "image_mset ?h (mset (map (\<lambda>(a, b, k). oriented False (a, b, Some k)) es))
      = mset (map (\<lambda>(a, b, k). oriented False (a, b, ())) es)" for es :: "edge list"
    by (induction es) (auto simp: h)
  then have "image_mset ?h (keyed_edges G) = plain_edges G"
    using False by (simp add: keyed_edges_def plain_edges_def)
  ultimately show ?thesis using False by simp
qed

lemma follow_closed:
  assumes "follow s ps = Some s" shows "closed_walk ps"
proof (cases ps)
  case Nil
  then show ?thesis by (simp add: closed_walk_def)
next
  case (Cons p ps')
  obtain a b where p: "p = (a, b)" by (cases p) auto
  with assms Cons have "a = s" by (auto split: if_splits)
  with assms Cons p show ?thesis by (simp add: closed_walk_def)
qed

text \<open>The tuples of the trail in terms of the multigraph walk, for both kinds of graph.\<close>

lemma walk_and_yield_ends:
  assumes "is_multigraph (\<sigma> ! g) \<or> keys_zero (\<sigma> ! g)"
  shows "map ends (fst (walk_and_yield \<sigma> g s keys))
      = map (\<lambda>(l, c, k). (l, c)) (fst (multigraph_eulerian_circuit (\<sigma> ! g) s))"
proof (cases "is_multigraph (\<sigma> ! g)")
  case True
  then show ?thesis
    by (auto simp: walk_and_yield_def split: prod.splits)
next
  case False
  with assms have "keys_zero (\<sigma> ! g)" by simp
  from simple_walk_multigraph [OF this, of s] False show ?thesis
    by (auto simp: walk_and_yield_def split: prod.splits)
qed

lemma trail_plain_edges_ends:
  "trail_plain_edges d ys = mset (map (\<lambda>(l, c). oriented d (l, c, ())) (map ends ys))"
  by (simp add: trail_plain_edges_def comp_def case_prod_beta)

lemma working_graph_simps:
  "is_directed (working_graph G) = is_directed G"
  "is_multigraph (working_graph G) = is_multigraph G"
  "node_list (working_graph G) = node_list G"
  "adjacent (working_graph G) = adjacent G"
  "ends_in_nodes (working_graph G) = ends_in_nodes G"
  "keys_zero (working_graph G) = keys_zero G"
  by (simp_all add: working_graph_def reverse_def copy_def adjacent_reverse [unfolded reverse_def]
      ends_in_nodes_reverse [unfolded reverse_def] keys_zero_reverse [unfolded reverse_def])

lemma eulerian_circuit_list:
  assumes "is_eulerian (\<sigma> ! g) = Inr True"
  shows "fst (list_of (eulerian_circuit \<sigma> g None keys))
    = Inr (fst (walk_and_yield (\<sigma> @ [working_graph (\<sigma> ! g)]) (length \<sigma>)
              (hd (node_list (\<sigma> ! g))) keys))"
proof -
  from is_eulerian_nonempty [OF assms] obtain v vs where n: "node_list (\<sigma> ! g) = v # vs"
    by (cases "node_list (\<sigma> ! g)") auto
  then have "node_list (working_graph (\<sigma> ! g)) = v # vs" by (simp add: working_graph_simps)
  with assms n show ?thesis
    by (auto simp: eulerian_circuit_def eulerian_circuit_body_def list_of_def new_object_def
        arbitrary_element_def working_graph_def [symmetric] split: prod.splits)
qed

lemma eulerian_circuit_trail:
  assumes e: "is_eulerian (\<sigma> ! g) = Inr True" and wf: "wf_graph (\<sigma> ! g)"
    and ys: "fst (list_of (eulerian_circuit \<sigma> g None keys)) = Inr ys"
  shows "trail_plain_edges (is_directed (\<sigma> ! g)) ys = plain_edges (\<sigma> ! g) \<and>
         closed_walk (map ends ys)"
proof -
  let ?G = "\<sigma> ! g"
  let ?W = "working_graph ?G"
  let ?s = "hd (node_list ?G)"
  let ?\<sigma> = "\<sigma> @ [?W]"
  obtain zs R where res: "multigraph_eulerian_circuit ?W ?s = (zs, R)"
    by (cases "multigraph_eulerian_circuit ?W ?s") auto
  have W: "?\<sigma> ! length \<sigma> = ?W" by simp
  from ys eulerian_circuit_list [OF e, of keys]
  have y: "ys = fst (walk_and_yield ?\<sigma> (length \<sigma>) ?s keys)" by simp
  have mk: "is_multigraph (?\<sigma> ! length \<sigma>) \<or> keys_zero (?\<sigma> ! length \<sigma>)"
    using wf_graph_keys [OF wf] by (auto simp: working_graph_simps)
  from walk_and_yield_ends [OF mk, of ?s keys] res y
  have en: "map ends ys = map (\<lambda>(l, c, k). (l, c)) zs" by simp
  have b: "balanced ?W ?s ?s"
    using is_eulerian_balanced [OF e wf_graph_ends [OF wf]] by (simp add: working_graph_def)
  have wfW: "ends_in_nodes ?W" using wf_graph_ends [OF wf] by (simp add: working_graph_simps)
  have conn: "\<forall>v \<in> set (node_list ?W). (?s, v) \<in> (adjacent ?W)\<^sup>*"
    using is_eulerian_connected [OF e] by (simp add: working_graph_simps)
  from multigraph_walk_correct [OF b wfW conn res]
  have k: "yielded_edges (is_directed ?G) zs = keyed_edges ?W"
    and f: "follow ?s (map (\<lambda>(l, c, k). (l, c)) zs) = Some ?s"
    by (simp_all add: working_graph_simps)
  from plain_of_keyed [OF k [unfolded working_graph_def]]
  have "mset (map (\<lambda>(l, c, k). oriented (is_directed ?G) (l, c, ())) zs) = plain_edges ?G" .
  moreover have "mset (map (\<lambda>(l, c, k). oriented (is_directed ?G) (l, c, ())) zs)
      = trail_plain_edges (is_directed ?G) ys"
    unfolding trail_plain_edges_ends en by (simp add: comp_def case_prod_unfold)
  ultimately have "trail_plain_edges (is_directed ?G) ys = plain_edges ?G" by simp
  moreover from follow_closed [OF f] en have "closed_walk (map ends ys)" by simp
  ultimately show ?thesis by simp
qed

section \<open>Eulerian circuits\<close>

text \<open>
  C1: for a graph that satisfies the invariant of the container, \<open>is_eulerian\<close> is true
  exactly when \<open>eulerian_circuit\<close>, consumed to its end, raises nothing and yields a
  sequence of edges whose multiset is the multiset of the edges of the graph and whose ends
  chain into a closed walk.
\<close>

theorem eulerian_circuit_iff:
  assumes "wf_graph (\<sigma> ! g)"
  shows "is_eulerian (\<sigma> ! g) = Inr True \<longleftrightarrow>
     (\<exists>ys. fst (list_of (eulerian_circuit \<sigma> g None keys)) = Inr ys \<and>
        trail_plain_edges (is_directed (\<sigma> ! g)) ys = plain_edges (\<sigma> ! g) \<and>
        closed_walk (map ends ys))"
proof
  assume e: "is_eulerian (\<sigma> ! g) = Inr True"
  from eulerian_circuit_list [OF e, of keys] obtain ys where
    ys: "fst (list_of (eulerian_circuit \<sigma> g None keys)) = Inr ys" by blast
  from eulerian_circuit_trail [OF e assms ys] ys
  show "\<exists>ys. fst (list_of (eulerian_circuit \<sigma> g None keys)) = Inr ys \<and>
        trail_plain_edges (is_directed (\<sigma> ! g)) ys = plain_edges (\<sigma> ! g) \<and>
        closed_walk (map ends ys)" by blast
next
  assume "\<exists>ys. fst (list_of (eulerian_circuit \<sigma> g None keys)) = Inr ys \<and>
        trail_plain_edges (is_directed (\<sigma> ! g)) ys = plain_edges (\<sigma> ! g) \<and>
        closed_walk (map ends ys)"
  then obtain ys where "fst (list_of (eulerian_circuit \<sigma> g None keys)) = Inr ys" by blast
  then show "is_eulerian (\<sigma> ! g) = Inr True"
    by (auto simp: eulerian_circuit_def eulerian_circuit_body_def list_of_def
        split: sum.splits bool.splits)
qed

theorem eulerian_circuit_iff_witness:
  "wf_graph ([triangle] ! 0) \<and> is_eulerian ([triangle] ! 0) = Inr True \<and>
   fst (list_of (eulerian_circuit [triangle] 0 None False))
     = Inr [Edge2 0 2, Edge2 2 1, Edge2 1 0] \<and>
   trail_plain_edges (is_directed ([triangle] ! 0)) [Edge2 0 2, Edge2 2 1, Edge2 1 0]
     = plain_edges ([triangle] ! 0) \<and>
   closed_walk (map ends [Edge2 0 2, Edge2 2 1, Edge2 1 0])"
proof -
  have w: "wf_graph ([triangle] ! 0)" by (simp add: wf_graph_def triangle_def)
  have y: "fst (list_of (eulerian_circuit [triangle] 0 None False))
     = Inr [Edge2 0 2, Edge2 2 1, Edge2 1 0]" by code_simp
  have t: "trail_plain_edges (is_directed ([triangle] ! 0)) [Edge2 0 2, Edge2 2 1, Edge2 1 0]
     = plain_edges ([triangle] ! 0)"
    by (simp add: trail_plain_edges_def plain_edges_def triangle_def oriented_def)
  have c: "closed_walk (map ends [Edge2 0 2, Edge2 2 1, Edge2 1 0])"
    by (simp add: closed_walk_def)
  from eulerian_circuit_iff [OF w, of False] y t c
  have "is_eulerian ([triangle] ! 0) = Inr True" by blast
  with w y t c show ?thesis by blast
qed

section \<open>Eulerian paths\<close>

text \<open>
  C3: the directed graph with the edges 0 to 1, 0 to 2, 1 to 3 and 2 to 3 has no Eulerian
  path: vertex 0 has two more edges out than in.  \<open>has_eulerian_path\<close> accepts it, since
  it counts the vertices whose degrees differ by one and the vertices whose degrees differ
  at all, and never asks that every vertex of the second kind is of the first.
  \<open>eulerian_path\<close> then yields the pair (1, 0), which is no edge of the graph.
\<close>

theorem eulerian_path_diamond:
  "wf_graph ([diamond] ! 0) \<and>
   has_eulerian_path ([diamond] ! 0) = Inr True \<and> is_eulerian ([diamond] ! 0) = Inr False \<and>
   fst (list_of (eulerian_path [diamond] 0 None False))
     = Inr [Edge2 0 1, Edge2 1 0, Edge2 0 2, Edge2 2 3] \<and>
   (1, 0, ()) \<in># trail_plain_edges True [Edge2 0 1, Edge2 1 0, Edge2 0 2, Edge2 2 3] \<and>
   (1, 0, ()) \<notin># plain_edges ([diamond] ! 0)"
proof -
  have "wf_graph ([diamond] ! 0)" by (simp add: wf_graph_def diamond_def)
  moreover have "has_eulerian_path ([diamond] ! 0) = Inr True" by code_simp
  moreover have "is_eulerian ([diamond] ! 0) = Inr False" by code_simp
  moreover have "fst (list_of (eulerian_path [diamond] 0 None False))
     = Inr [Edge2 0 1, Edge2 1 0, Edge2 0 2, Edge2 2 3]" by code_simp
  moreover have "(1, 0, ()) \<in># trail_plain_edges True [Edge2 0 1, Edge2 1 0, Edge2 0 2, Edge2 2 3]"
    by (simp add: trail_plain_edges_def oriented_def)
  moreover have "(1, 0, ()) \<notin># plain_edges ([diamond] ! 0)"
    by (simp add: plain_edges_def diamond_def oriented_def)
  ultimately show ?thesis by blast
qed

section \<open>The auxiliary weighted graph\<close>

lemma joins_upair: "joins u v (a, b, w, P) \<longleftrightarrow> upair (a, b) = upair (u, v)"
  by (auto simp: joins_def upair_def doubleton_eq_iff)

lemma combinations2_subset:
  "(m, n) \<in> set (combinations2 xs) \<Longrightarrow> m \<in> set xs \<and> n \<in> set xs"
  by (induction xs) auto

lemma combinations2_neq:
  "distinct xs \<Longrightarrow> (m, n) \<in> set (combinations2 xs) \<Longrightarrow> m \<noteq> n"
  by (induction xs) (auto dest: combinations2_subset)

lemma combinations2_complete:
  "m \<in> set xs \<Longrightarrow> n \<in> set xs \<Longrightarrow> m \<noteq> n \<Longrightarrow>
     (m, n) \<in> set (combinations2 xs) \<or> (n, m) \<in> set (combinations2 xs)"
  by (induction xs) auto

lemma combinations2_distinct:
  "distinct xs \<Longrightarrow> distinct (map upair (combinations2 xs))"
proof (induction xs)
  case Nil
  then show ?case by simp
next
  case (Cons x xs)
  have 1: "distinct (map upair (map (\<lambda>y. (x, y)) xs))"
    using Cons.prems
    by (auto simp: distinct_map inj_on_def upair_def doubleton_eq_iff)
  have 2: "upair (x, y) \<noteq> upair p" if "y \<in> set xs" "p \<in> set (combinations2 xs)" for y p
  proof -
    obtain m n where p: "p = (m, n)" by (cases p) auto
    with that combinations2_subset [of m n xs] Cons.prems have "m \<noteq> x" "n \<noteq> x" by auto
    with p show ?thesis by (auto simp: upair_def doubleton_eq_iff)
  qed
  from 1 2 Cons show ?case by (auto simp: image_iff)
qed

lemma build_Gp_appends:
  assumes "list_all (\<lambda>p. fst p \<noteq> snd p \<and> sp (fst p) (snd p) \<noteq> []) ps"
    and "distinct (map upair ps)"
    and "\<And>p e. p \<in> set ps \<Longrightarrow> e \<in> set acc \<Longrightarrow> \<not> joins (snd p) (fst p) e"
  shows "build_Gp (map (\<lambda>(m, n). (m, n, sp m n)) ps) acc = Inr (acc @ map (aux_edge sp) ps)"
  using assms
proof (induction ps arbitrary: acc)
  case Nil
  then show ?case by simp
next
  case (Cons p ps)
  obtain m n where p: "p = (m, n)" by (cases p) auto
  from Cons.prems(1) p have mn: "m \<noteq> n" and P: "sp m n \<noteq> []" by auto
  have nj: "\<not> list_ex (joins n m) acc"
    using Cons.prems(3) [of p] p by (auto simp: list_ex_iff)
  let ?acc = "acc @ [aux_edge sp p]"
  have g: "gp_add_edge acc n m (1 / of_nat (length (sp m n))) (sp m n) = ?acc"
    using nj p by (simp add: gp_add_edge_def aux_edge_def)
  have fresh: "\<not> joins (snd q) (fst q) e" if "q \<in> set ps" "e \<in> set ?acc" for q e
  proof (cases "e \<in> set acc")
    case True
    with Cons.prems(3) [of q e] that show ?thesis by auto
  next
    case False
    with that have e: "e = aux_edge sp p" by auto
    from Cons.prems(2) that(1) have "upair q \<noteq> upair p" by auto
    then show ?thesis
      unfolding e aux_edge_def p
      by (cases q) (auto simp: joins_def upair_def doubleton_eq_iff)
  qed
  have "build_Gp (map (\<lambda>(m, n). (m, n, sp m n)) ps) ?acc = Inr (?acc @ map (aux_edge sp) ps)"
    using Cons.prems(1,2) fresh by (intro Cons.IH) auto
  with mn P g p show ?case by simp
qed

lemma distinct_filter_one:
  assumes "distinct (map f xs)" and "x \<in> set xs"
  shows "length (filter (\<lambda>y. f y = f x) xs) = 1"
  using assms
proof (induction xs)
  case Nil
  then show ?case by simp
next
  case (Cons y ys)
  show ?case
  proof (cases "y = x")
    case True
    with Cons.prems have "filter (\<lambda>z. f z = f x) ys = []"
      by (auto simp: filter_empty_conv image_iff)
    with True show ?thesis by simp
  next
    case False
    with Cons.prems have "x \<in> set ys" and "f y \<noteq> f x" by (auto simp: image_iff)
    with Cons show ?thesis by simp
  qed
qed

lemma auxiliary_graph_shape:
  assumes d: "distinct odd_degree_nodes"
    and sp: "\<forall>m \<in> set odd_degree_nodes. \<forall>n \<in> set odd_degree_nodes.
        m \<noteq> n \<longrightarrow> shortest_path G m n \<noteq> []"
  shows "\<exists>Gp. auxiliary_graph shortest_path G odd_degree_nodes = Inr Gp \<and>
     (\<forall>m \<in> set odd_degree_nodes. \<forall>n \<in> set odd_degree_nodes. m \<noteq> n \<longrightarrow>
        length (filter (joins m n) Gp) = 1) \<and>
     (\<forall>(a, b, w, P) \<in> set Gp. a \<in> set odd_degree_nodes \<and> b \<in> set odd_degree_nodes \<and> a \<noteq> b \<and>
        P = shortest_path G b a \<and> w = 1 / of_nat (length P))"
proof -
  let ?ps = "combinations2 odd_degree_nodes"
  let ?Gp = "map (aux_edge (shortest_path G)) ?ps"
  have 1: "list_all (\<lambda>p. fst p \<noteq> snd p \<and> shortest_path G (fst p) (snd p) \<noteq> []) ?ps"
    using sp combinations2_neq [OF d] combinations2_subset [of _ _ odd_degree_nodes]
    by (fastforce simp: list_all_iff)
  have 2: "distinct (map upair ?ps)" by (rule combinations2_distinct [OF d])
  have b: "auxiliary_graph shortest_path G odd_degree_nodes = Inr ?Gp"
    using build_Gp_appends [OF 1 2, of "[]"] by (simp add: auxiliary_graph_def)
  have one: "length (filter (joins m n) ?Gp) = 1"
    if "m \<in> set odd_degree_nodes" "n \<in> set odd_degree_nodes" "m \<noteq> n" for m n
  proof -
    from combinations2_complete [OF that] obtain p where p: "p \<in> set ?ps" "upair p = upair (m, n)"
      by (auto simp: upair_def doubleton_eq_iff)
    have "filter (joins m n) ?Gp = map (aux_edge (shortest_path G)) (filter (\<lambda>q. upair q = upair p) ?ps)"
      unfolding filter_map p(2)
      by (rule arg_cong [where f = "map _"], rule filter_cong)
         (auto simp: aux_edge_def joins_def upair_def doubleton_eq_iff)
    with distinct_filter_one [OF 2 p(1)] show ?thesis by simp
  qed
  have two: "a \<in> set odd_degree_nodes \<and> b \<in> set odd_degree_nodes \<and> a \<noteq> b \<and>
        P = shortest_path G b a \<and> w = 1 / of_nat (length P)"
    if "(a, b, w, P) \<in> set ?Gp" for a b w P
  proof -
    from that obtain m n where "(m, n) \<in> set ?ps" "(a, b, w, P) = aux_edge (shortest_path G) (m, n)"
      by auto
    with combinations2_subset [of m n odd_degree_nodes] combinations2_neq [OF d, of m n]
    show ?thesis by (auto simp: aux_edge_def)
  qed
  show ?thesis
  proof (intro exI [of _ ?Gp] conjI ballI impI)
    show "auxiliary_graph shortest_path G odd_degree_nodes = Inr ?Gp" by (rule b)
  next
    fix m n assume "m \<in> set odd_degree_nodes" "n \<in> set odd_degree_nodes" "m \<noteq> n"
    then show "length (filter (joins m n) ?Gp) = 1" by (rule one)
  next
    fix e assume e: "e \<in> set ?Gp"
    obtain a b w P where "e = (a, b, w, P)" by (cases e) auto
    with two [of a b w P] e
    show "case e of (a, b, w, P) \<Rightarrow> a \<in> set odd_degree_nodes \<and> b \<in> set odd_degree_nodes \<and>
        a \<noteq> b \<and> P = shortest_path G b a \<and> w = 1 / of_nat (length P)" by simp
  qed
qed

text \<open>
  C6 (amended): the auxiliary weighted graph has exactly one edge for every unordered pair of
  vertices of odd degree and no other edge, and the weight of an edge is 1 divided by the
  number of vertices of the shortest path recorded on it, which is the number of its edges
  plus one.  The path recorded on the edge between \<open>a\<close> and \<open>b\<close> runs from \<open>b\<close> to
  \<open>a\<close>.
\<close>

theorem auxiliary_graph_edges:
  assumes "distinct odd_degree_nodes"
    and "\<forall>m \<in> set odd_degree_nodes. \<forall>n \<in> set odd_degree_nodes.
        m \<noteq> n \<longrightarrow> shortest_path G m n \<noteq> []"
  shows "\<exists>Gp. auxiliary_graph shortest_path G odd_degree_nodes = Inr Gp \<and>
     (\<forall>m \<in> set odd_degree_nodes. \<forall>n \<in> set odd_degree_nodes. m \<noteq> n \<longrightarrow>
        length (filter (joins m n) Gp) = 1) \<and>
     (\<forall>(a, b, w, P) \<in> set Gp. a \<in> set odd_degree_nodes \<and> b \<in> set odd_degree_nodes \<and> a \<noteq> b \<and>
        P = shortest_path G b a \<and> w = 1 / of_nat (length P))"
  using assms by (rule auxiliary_graph_shape)

text \<open>
  On the path with the one edge between 0 and 1 the shortest path between the two vertices
  of odd degree has one edge, and the weight of the edge of \<open>Gp\<close> is a half.
\<close>

theorem auxiliary_graph_weight_counterexample:
  "auxiliary_graph direct_path (MultiGraph path2) [0, 1] = Inr [(1, 0, 1 / 2, [0, 1])] \<and>
   length (pairwise_list [0 :: vertex, 1]) = 1 \<and>
   (1 / 2 :: rat) \<noteq> 1 / of_nat (length (pairwise_list [0 :: vertex, 1]))"
  by (simp add: auxiliary_graph_def direct_path_def gp_add_edge_def joins_def pairwise_list_def)

theorem auxiliary_graph_edges_witness:
  "distinct [0 :: vertex, 1] \<and> direct_path (MultiGraph path2) 0 1 \<noteq> [] \<and>
   auxiliary_graph direct_path (MultiGraph path2) [0, 1] = Inr [(1, 0, 1 / 2, [0, 1])] \<and>
   length (filter (joins 0 1) [(1, 0, 1 / 2, [0, 1])]) = 1"
proof -
  have d: "distinct [0 :: vertex, 1]" by simp
  have s: "\<forall>m \<in> set [0 :: vertex, 1]. \<forall>n \<in> set [0, 1].
      m \<noteq> n \<longrightarrow> direct_path (MultiGraph path2) m n \<noteq> []"
    by (simp add: direct_path_def)
  have e: "auxiliary_graph direct_path (MultiGraph path2) [0, 1] = Inr [(1, 0, 1 / 2, [0, 1])]"
    by (simp add: auxiliary_graph_def direct_path_def gp_add_edge_def joins_def)
  from auxiliary_graph_edges [where odd_degree_nodes = "[0, 1]" and shortest_path = direct_path
      and G = "MultiGraph path2", OF d s]
  obtain Gp where g: "auxiliary_graph direct_path (MultiGraph path2) [0, 1] = Inr Gp"
    and o: "\<forall>m \<in> set [0 :: vertex, 1]. \<forall>n \<in> set [0 :: vertex, 1]. m \<noteq> n \<longrightarrow>
        length (filter (joins m n) Gp) = 1" by blast
  from g e have "Gp = [(1, 0, 1 / 2, [0, 1])]" by simp
  moreover from o have "length (filter (joins 0 1) Gp) = 1" by simp
  ultimately have "length (filter (joins 0 1) [(1, 0, 1 / 2, [0, 1])]) = 1" by simp
  with d s e show ?thesis by (simp add: direct_path_def)
qed

section \<open>The eulerized graph is Eulerian\<close>

subsection \<open>The handshake lemma\<close>

lemma sum_list_indicator:
  "distinct ns \<Longrightarrow> sum_list (map (\<lambda>x. if a = x then 1 else 0) ns) = (if a \<in> set ns then 1 else (0::nat))"
  by (induction ns) auto

lemma degree_sum_edges:
  assumes "distinct ns" and "\<forall>e \<in> set es. fst e \<in> set ns \<and> fst (snd e) \<in> set ns"
  shows "sum_list (map (\<lambda>x. length (filter (\<lambda>e. fst (snd e) = x) es)
            + length (filter (\<lambda>e. fst e = x) es)) ns) = 2 * length (es :: edge list)"
  using assms(2)
proof (induction es)
  case Nil
  then show ?case by simp
next
  case (Cons e es)
  from Cons.prems have a: "fst e \<in> set ns" and b: "fst (snd e) \<in> set ns" by auto
  from Cons.prems have ih: "sum_list (map (\<lambda>x. length (filter (\<lambda>e. fst (snd e) = x) es)
            + length (filter (\<lambda>e. fst e = x) es)) ns) = 2 * length es"
    by (intro Cons.IH) auto
  have "sum_list (map (\<lambda>x. length (filter (\<lambda>e. fst (snd e) = x) (e # es))
            + length (filter (\<lambda>e. fst e = x) (e # es))) ns)
      = sum_list (map (\<lambda>x. (length (filter (\<lambda>e. fst (snd e) = x) es)
            + length (filter (\<lambda>e. fst e = x) es))
            + ((if fst (snd e) = x then 1 else 0) + (if fst e = x then 1 else 0))) ns)"
    by (intro arg_cong [where f = sum_list] map_cong) auto
  also have "\<dots> = sum_list (map (\<lambda>x. length (filter (\<lambda>e. fst (snd e) = x) es)
            + length (filter (\<lambda>e. fst e = x) es)) ns)
      + (sum_list (map (\<lambda>x. if fst (snd e) = x then 1 else 0) ns)
         + sum_list (map (\<lambda>x. if fst e = x then 1 else 0) ns))"
    by (simp only: sum_list_addf)
  also have "\<dots> = 2 * length es + 2"
    unfolding ih using a b assms(1) by (simp only: sum_list_indicator) simp
  finally show ?case by simp
qed

lemma handshake:
  assumes "wf_graph G"
  shows "sum_list (map (degree G) (node_list G)) = 2 * length (edge_list G)"
proof -
  have d: "degree G = (\<lambda>x. length (filter (\<lambda>e. fst (snd e) = x) (edge_list G))
            + length (filter (\<lambda>e. fst e = x) (edge_list G)))"
    by (auto simp: fun_eq_iff degree_def in_degree_def out_degree_def case_prod_unfold)
  have "\<forall>e \<in> set (edge_list G). fst e \<in> set (node_list G) \<and> fst (snd e) \<in> set (node_list G)"
    using assms by (auto simp: wf_graph_def list_all_iff)
  moreover have "distinct (node_list G)" using assms by (simp add: wf_graph_def)
  ultimately show ?thesis unfolding d by (intro degree_sum_edges)
qed

lemma even_sum_odd_count:
  "even (sum_list (map f xs)) \<longleftrightarrow> even (length (filter (\<lambda>x. odd (f x :: nat)) xs))"
  by (induction xs) auto

lemma even_odd_degree_nodes:
  assumes "wf_graph G"
  shows "even (length (filter (\<lambda>n. degree G n mod 2 = 1) (node_list G)))"
proof -
  have "even (sum_list (map (degree G) (node_list G)))" using handshake [OF assms] by simp
  then have "even (length (filter (\<lambda>x. odd (degree G x)) (node_list G)))"
    by (simp add: even_sum_odd_count)
  moreover have "(\<lambda>x. odd (degree G x)) = (\<lambda>n. degree G n mod 2 = 1)"
    by (auto simp: odd_iff_mod_2_eq_one)
  ultimately show ?thesis by simp
qed

subsection \<open>Adding the edges of a path\<close>

lemma add_edge_inside:
  assumes "u \<in> set (node_list G)" "v \<in> set (node_list G)"
  shows "node_list (add_edge G u v) = node_list G"
    and "\<exists>k. edge_list (add_edge G u v) = edge_list G @ [(u, v, k)]"
    and "is_directed (add_edge G u v) = is_directed G"
    and "is_multigraph (add_edge G u v) = is_multigraph G"
  using assms by (simp_all add: add_edge_def add_node_def Let_def)

lemma add_edges_from_inside:
  assumes "\<forall>(u, v) \<in> set ps. u \<in> set (node_list G) \<and> v \<in> set (node_list G)"
  shows "node_list (add_edges_from G ps) = node_list G \<and>
         is_directed (add_edges_from G ps) = is_directed G \<and>
         is_multigraph (add_edges_from G ps) = is_multigraph G \<and>
         (\<exists>es. edge_list (add_edges_from G ps) = edge_list G @ es \<and>
               map (\<lambda>(a, b, k). (a, b)) es = ps)"
  using assms
proof (induction ps arbitrary: G)
  case Nil
  then show ?case by simp
next
  case (Cons p ps)
  obtain u v where p: "p = (u, v)" by (cases p) auto
  with Cons.prems have uv: "u \<in> set (node_list G)" "v \<in> set (node_list G)" by auto
  from add_edge_inside [OF uv] obtain k where
    n: "node_list (add_edge G u v) = node_list G"
    and e: "edge_list (add_edge G u v) = edge_list G @ [(u, v, k)]"
    and f: "is_directed (add_edge G u v) = is_directed G"
      "is_multigraph (add_edge G u v) = is_multigraph G" by blast
  have "\<forall>(u', v') \<in> set ps. u' \<in> set (node_list (add_edge G u v))
      \<and> v' \<in> set (node_list (add_edge G u v))"
    using Cons.prems n by auto
  from Cons.IH [OF this] obtain es where
    "node_list (add_edges_from (add_edge G u v) ps) = node_list (add_edge G u v)"
    "is_directed (add_edges_from (add_edge G u v) ps) = is_directed (add_edge G u v)"
    "is_multigraph (add_edges_from (add_edge G u v) ps) = is_multigraph (add_edge G u v)"
    "edge_list (add_edges_from (add_edge G u v) ps) = edge_list (add_edge G u v) @ es"
    "map (\<lambda>(a, b, k). (a, b)) es = ps" by blast
  with n e f p show ?case
    by (intro conjI exI [of _ "(u, v, k) # es"]) auto
qed

lemma degree_append:
  assumes "edge_list H = edge_list G @ es"
  shows "degree H x = degree G x + count_list (map (\<lambda>(a, b, k). a) es) x
           + count_list (map (\<lambda>(a, b, k). b) es) x"
proof -
  have "length (filter (\<lambda>(a, b, k). a = x) es) = count_list (map (\<lambda>(a, b, k). a) es) x"
    and "length (filter (\<lambda>(a, b, k). b = x) es) = count_list (map (\<lambda>(a, b, k). b) es) x"
    for es :: "edge list"
    by (induction es) auto
  with assms show ?thesis by (simp add: degree_def in_degree_def out_degree_def)
qed

lemma count_list_butlast:
  "P \<noteq> [] \<Longrightarrow> count_list (butlast P) x + (if x = last P then 1 else 0) = count_list P x"
  by (induction P) auto

lemma count_list_tl:
  "P \<noteq> [] \<Longrightarrow> count_list (tl P) x + (if x = hd P then 1 else 0) = count_list P x"
  by (cases P) auto

lemma pairwise_list_maps:
  "map fst (pairwise_list P) = butlast P" "map snd (pairwise_list P) = tl P"
proof -
  have "map fst (zip P (tl P)) = butlast P"
    by (cases P) (simp_all add: map_fst_zip_take butlast_conv_take min_def)
  then show "map fst (pairwise_list P) = butlast P" by (simp add: pairwise_list_def)
  show "map snd (pairwise_list P) = tl P"
    by (cases P) (simp_all add: pairwise_list_def map_snd_zip_take min_def)
qed

lemma path_parity:
  assumes "P \<noteq> []"
  shows "odd (count_list (map fst (pairwise_list P)) x + count_list (map snd (pairwise_list P)) x)
     \<longleftrightarrow> (x = hd P) \<noteq> (x = last P)"
proof -
  let ?c = "count_list P x"
  have b: "count_list (butlast P) x = ?c - (if x = last P then 1 else 0)"
    using count_list_butlast [OF assms, of x] by (auto split: if_splits)
  have t: "count_list (tl P) x = ?c - (if x = hd P then 1 else 0)"
    using count_list_tl [OF assms, of x] by (auto split: if_splits)
  have c: "x = last P \<or> x = hd P \<Longrightarrow> 1 \<le> ?c"
    using count_list_butlast [OF assms, of x] count_list_tl [OF assms, of x]
    by (auto split: if_splits)
  have 1: "odd (n - 1 + n)" if "1 \<le> n" for n :: nat using that by presburger
  have 2: "odd (n + (n - 1))" if "1 \<le> n" for n :: nat using that by presburger
  show ?thesis
    unfolding pairwise_list_maps b t using c 1 [of ?c] 2 [of ?c]
    by (cases "x = hd P"; cases "x = last P") simp_all
qed

subsection \<open>Connectivity grows with the edges\<close>

lemma reach_mono:
  "set E \<subseteq> set E' \<Longrightarrow> set S \<subseteq> set S' \<Longrightarrow> set (reach n E S) \<subseteq> set (reach n E' S')"
proof (induction n arbitrary: S S')
  case 0
  then show ?case by simp
next
  case (Suc n)
  have "set (S @ map snd (filter (\<lambda>(a, b). a \<in> set S) E))
      \<subseteq> set (S' @ map snd (filter (\<lambda>(a, b). a \<in> set S') E'))"
    using Suc.prems by auto
  from Suc.IH [OF Suc.prems(1) this] show ?case by simp
qed

lemma length_covered: "length (covered M) = 2 * length M"
  by (induction M) (auto simp: covered_def)

lemma joins_ends: "joins u v (a, b, w, P) \<Longrightarrow> (u = a \<and> v = b) \<or> (u = b \<and> v = a)"
  by (auto simp: joins_def)

lemma even_card_other:
  assumes "finite A" "even (card A)" "x \<in> A"
  shows "\<exists>y \<in> A. y \<noteq> x"
proof (rule ccontr)
  assume n: "\<not> (\<exists>y \<in> A. y \<noteq> x)"
  have "A \<subseteq> {x}" using n by blast
  moreover have "{x} \<subseteq> A" using assms(3) by blast
  ultimately have "A = {x}" by (rule subset_antisym)
  then have "card A = 1" by simp
  with assms(2) show False by simp
qed

lemma max_weight_matching_perfect:
  assumes V: "distinct V" "even (length V)"
    and one: "\<forall>m \<in> set V. \<forall>n \<in> set V. m \<noteq> n \<longrightarrow> length (filter (joins m n) Gp) = 1"
    and two: "\<forall>(a, b, w, P) \<in> set Gp. a \<in> set V \<and> b \<in> set V \<and> a \<noteq> b \<and> 0 < w"
    and mwm: "is_max_weight_matching Gp M"
  shows "set (covered M) = set V"
proof
  from mwm have m: "is_matching Gp M" by (simp add: is_max_weight_matching_def)
  show "set (covered M) \<subseteq> set V"
  proof
    fix x assume "x \<in> set (covered M)"
    then obtain u v where uv: "(u, v) \<in> set M" "x = u \<or> x = v" by (auto simp: covered_def)
    with m obtain e where e: "e \<in> set Gp" "joins u v e"
      by (auto simp: is_matching_def list_all_iff list_ex_iff)
    obtain a b w P where "e = (a, b, w, P)" by (cases e) auto
    with e two joins_ends [of u v a b w P] uv(2) show "x \<in> set V" by auto
  qed
  then have sub: "set (covered M) \<subseteq> set V" .
  show "set V \<subseteq> set (covered M)"
  proof (rule ccontr)
    assume "\<not> set V \<subseteq> set (covered M)"
    then obtain x where x: "x \<in> set V" "x \<notin> set (covered M)" by auto
    let ?A = "set V - set (covered M)"
    have dc: "distinct (covered M)" using m by (simp add: is_matching_def)
    have "card ?A = card (set V) - card (set (covered M))"
      using sub by (simp add: card_Diff_subset)
    also have "\<dots> = length V - 2 * length M"
      using V(1) dc by (simp add: distinct_card length_covered)
    finally have "even (card ?A)" using V(2) by simp
    from even_card_other [OF _ this, of x] x obtain y where
      y: "y \<in> set V" "y \<notin> set (covered M)" "y \<noteq> x" by auto
    let ?M = "(x, y) # M"
    from one x(1) y(1) y(3) have f: "length (filter (joins x y) Gp) = 1" by auto
    have ex: "list_ex (joins x y) Gp"
    proof (rule ccontr)
      assume "\<not> list_ex (joins x y) Gp"
      then have "filter (joins x y) Gp = []" by (simp add: list_ex_iff filter_empty_conv)
      with f show False by simp
    qed
    have m': "is_matching Gp ?M"
      using m dc x(2) y(2,3) ex by (simp add: is_matching_def covered_def)
    from ex obtain e where e: "find (joins x y) Gp = Some e"
      by (cases "find (joins x y) Gp") (auto simp: list_ex_iff find_None_iff)
    then have "e \<in> set Gp" by (auto simp: find_Some_iff)
    moreover obtain a b w P where abw: "e = (a, b, w, P)" by (cases e) auto
    ultimately have "0 < w" using two by auto
    with e abw have "0 < pair_weight Gp (x, y)" by (simp add: pair_weight_def gp_lookup_def)
    then have "matching_weight Gp M < matching_weight Gp ?M" by (simp add: matching_weight_def)
    moreover from mwm m' have "matching_weight Gp ?M \<le> matching_weight Gp M"
      by (simp add: is_max_weight_matching_def)
    ultimately show False by simp
  qed
qed

lemma count_list_pair:
  "m \<noteq> n \<Longrightarrow> odd (count_list [m, n] x) \<longleftrightarrow> x = m \<or> x = n"
  by auto

lemma duplicate_paths_parity:
  assumes "\<forall>(m, n) \<in> set M. m \<noteq> n \<and> (\<exists>a b w P. gp_lookup Gp m n = Some (a, b, w, P) \<and> P \<noteq> [] \<and>
        ((hd P = m \<and> last P = n) \<or> (hd P = n \<and> last P = m)) \<and>
        (\<forall>(u, v) \<in> set (pairwise_list P). u \<in> set (node_list H) \<and> v \<in> set (node_list H)))"
  shows "\<exists>H'. duplicate_paths H Gp M = (None, H') \<and> node_list H' = node_list H \<and>
     is_directed H' = is_directed H \<and> is_multigraph H' = is_multigraph H \<and>
     (\<exists>es. edge_list H' = edge_list H @ es) \<and>
     (\<forall>x. odd (degree H' x) \<longleftrightarrow> (odd (degree H x) \<noteq> odd (count_list (covered M) x)))"
  using assms
proof (induction M arbitrary: H)
  case Nil
  then show ?case by (simp add: covered_def)
next
  case (Cons p M)
  obtain m n where p: "p = (m, n)" by (cases p) auto
  with Cons.prems obtain a b w P where mn: "m \<noteq> n"
    and l: "gp_lookup Gp m n = Some (a, b, w, P)" and P: "P \<noteq> []"
    and hl: "(hd P = m \<and> last P = n) \<or> (hd P = n \<and> last P = m)"
    and ins: "\<forall>(u, v) \<in> set (pairwise_list P). u \<in> set (node_list H) \<and> v \<in> set (node_list H)"
    by auto
  let ?H1 = "add_edges_from H (pairwise_list P)"
  from add_edges_from_inside [OF ins] obtain es where
    n1: "node_list ?H1 = node_list H" and d1: "is_directed ?H1 = is_directed H"
    and m1: "is_multigraph ?H1 = is_multigraph H"
    and e1: "edge_list ?H1 = edge_list H @ es"
    and es: "map (\<lambda>(a, b, k). (a, b)) es = pairwise_list P" by blast
  have fs: "map (\<lambda>(a, b, k). a) es = map fst (pairwise_list P)"
    "map (\<lambda>(a, b, k). b) es = map snd (pairwise_list P)"
    unfolding es [symmetric] by (simp_all add: comp_def case_prod_unfold)
  have par1: "odd (degree ?H1 x) \<longleftrightarrow> (odd (degree H x) \<noteq> (x = m \<or> x = n))" for x
  proof -
    have "odd (count_list (map fst (pairwise_list P)) x + count_list (map snd (pairwise_list P)) x)
        \<longleftrightarrow> (x = m \<or> x = n)"
      unfolding path_parity [OF P] using hl mn by auto
    then show ?thesis
      unfolding degree_append [OF e1] fs by (simp add: add.assoc) blast
  qed
  have prem: "\<forall>(m, n) \<in> set M. m \<noteq> n \<and> (\<exists>a b w P. gp_lookup Gp m n = Some (a, b, w, P) \<and> P \<noteq> [] \<and>
        ((hd P = m \<and> last P = n) \<or> (hd P = n \<and> last P = m)) \<and>
        (\<forall>(u, v) \<in> set (pairwise_list P). u \<in> set (node_list ?H1) \<and> v \<in> set (node_list ?H1)))"
    using Cons.prems unfolding n1 by simp
  from Cons.IH [OF prem] obtain H' es' where
    r: "duplicate_paths ?H1 Gp M = (None, H')" and n': "node_list H' = node_list ?H1"
    and f': "is_directed H' = is_directed ?H1" "is_multigraph H' = is_multigraph ?H1"
    and e': "edge_list H' = edge_list ?H1 @ es'"
    and par': "\<And>x. odd (degree H' x) \<longleftrightarrow> (odd (degree ?H1 x) \<noteq> odd (count_list (covered M) x))"
    by blast
  have c: "covered (p # M) = [m, n] @ covered M" by (simp add: covered_def p)
  have par: "odd (degree H' x) \<longleftrightarrow> (odd (degree H x) \<noteq> odd (count_list (covered (p # M)) x))" for x
    unfolding c count_list_append par' [of x] par1 [of x] using count_list_pair [OF mn, of x]
    by (simp only: odd_add) blast
  have 1: "duplicate_paths H Gp (p # M) = (None, H')" using r l p by simp
  have 2: "\<exists>es. edge_list H' = edge_list H @ es" using e' e1 by simp
  have 3: "node_list H' = node_list H" "is_directed H' = is_directed H"
    "is_multigraph H' = is_multigraph H"
    using n' n1 f' d1 m1 by simp_all
  show ?case
    by (intro exI [of _ H'] conjI allI) (rule 1 3 2 par)+
qed

lemma MultiGraph_simps:
  "node_list (MultiGraph G) = node_list G" "edge_list (MultiGraph G) = edge_list G"
  "is_directed (MultiGraph G) = is_directed G" "is_multigraph (MultiGraph G)"
  "degree (MultiGraph G) x = degree G x" "order (MultiGraph G) = order G"
  "arcs (MultiGraph G) = arcs G" "rev_arcs (MultiGraph G) = rev_arcs G"
  by (simp_all add: MultiGraph_def degree_def in_degree_def out_degree_def order_def
      arcs_def rev_arcs_def)

lemma path_inside:
  assumes wf: "wf_graph G" and p: "is_path G m n P"
  shows "\<forall>(u, v) \<in> set (pairwise_list P). u \<in> set (node_list G) \<and> v \<in> set (node_list G)"
proof (intro ballI)
  fix q assume q: "q \<in> set (pairwise_list P)"
  obtain u v where uv: "q = (u, v)" by (cases q) auto
  with p q obtain e where e: "e \<in> set (edge_list G)" "same_ends u v e"
    by (auto simp: is_path_def list_all_iff list_ex_iff)
  obtain a b k where abk: "e = (a, b, k)" by (cases e) auto
  with e wf have "a \<in> set (node_list G)" "b \<in> set (node_list G)"
    by (auto simp: wf_graph_def list_all_iff)
  with e(2) abk uv show "case q of (u, v) \<Rightarrow> u \<in> set (node_list G) \<and> v \<in> set (node_list G)"
    by (auto simp: same_ends_def)
qed

lemma eulerize_graph_eulerian:
  assumes nd: "\<not> is_directed H" and n: "node_list H = node_list G" "node_list G \<noteq> []"
    and e: "edge_list H = edge_list G @ es"
    and c: "is_connected G = Inr True"
    and ev: "\<forall>x \<in> set (node_list G). even (degree H x)"
  shows "is_eulerian H = Inr True"
proof -
  from c n have cov: "covers G (arcs G @ rev_arcs G)"
    by (auto simp: is_connected_def order_def split: if_splits)
  have "set (arcs H) = set (arcs G) \<union> set (map (\<lambda>(a, b, k). (a, b)) es)"
    and "set (rev_arcs H) = set (rev_arcs G) \<union> set (map (\<lambda>(a, b, k). (b, a)) es)"
    by (simp_all add: arcs_def rev_arcs_def e)
  then have "set (arcs G @ rev_arcs G) \<subseteq> set (arcs H @ rev_arcs H)"
    unfolding set_append by blast
  from reach_mono [OF this subset_refl]
  have "covers H (arcs H @ rev_arcs H)"
    using cov n by (auto simp: covers_def list_all_iff order_def)
  then have "is_connected H = Inr True"
    using n by (simp add: is_connected_def order_def)
  with nd ev n show ?thesis
    by (simp add: is_eulerian_def list_all_iff even_iff_mod_2_eq_zero)
qed

lemma odd_nodes_facts:
  assumes "wf_graph G"
  shows "distinct (odd_nodes G)" "even (length (odd_nodes G))"
    "x \<in> set (odd_nodes G) \<longleftrightarrow> x \<in> set (node_list G) \<and> odd (degree G x)"
  using assms even_odd_degree_nodes [OF assms]
  by (auto simp: odd_nodes_def wf_graph_def odd_iff_mod_2_eq_one)

lemma eulerize_result:
  assumes wf: "wf_graph G" and nd: "\<not> is_directed G" and ne: "node_list G \<noteq> []"
    and c: "is_connected G = Inr True"
    and sp: "\<forall>m \<in> set (odd_nodes G). \<forall>n \<in> set (odd_nodes G). m \<noteq> n \<longrightarrow>
        is_path (MultiGraph G) m n (shortest_path (MultiGraph G) m n)"
    and gp: "auxiliary_graph shortest_path (MultiGraph G) (odd_nodes G) = Inr Gp"
    and mwm: "is_max_weight_matching Gp M"
  shows "\<exists>H es. duplicate_paths (MultiGraph G) Gp M = (None, H) \<and> is_eulerian H = Inr True \<and>
     is_multigraph H \<and> node_list H = node_list G \<and> edge_list H = edge_list G @ es"
proof -
  let ?G = "MultiGraph G"
  let ?V = "odd_nodes G"
  have wfM: "wf_graph ?G" using wf by (simp add: wf_graph_def MultiGraph_def)
  have spne: "\<forall>m \<in> set ?V. \<forall>n \<in> set ?V. m \<noteq> n \<longrightarrow> shortest_path ?G m n \<noteq> []"
    using sp by (auto simp: is_path_def)
  from auxiliary_graph_shape [where odd_degree_nodes = ?V and shortest_path = shortest_path
      and G = ?G, OF odd_nodes_facts(1) [OF wf] spne] gp
  have one: "\<forall>m \<in> set ?V. \<forall>n \<in> set ?V. m \<noteq> n \<longrightarrow> length (filter (joins m n) Gp) = 1"
    and two: "\<forall>(a, b, w, P) \<in> set Gp. a \<in> set ?V \<and> b \<in> set ?V \<and> a \<noteq> b \<and>
        P = shortest_path ?G b a \<and> w = 1 / of_nat (length P)"
    by auto
  have pos: "\<forall>(a, b, w, P) \<in> set Gp. a \<in> set ?V \<and> b \<in> set ?V \<and> a \<noteq> b \<and> 0 < w"
  proof (intro ballI)
    fix e assume e: "e \<in> set Gp"
    obtain a b w P where abw: "e = (a, b, w, P)" by (cases e) auto
    with two e have t: "a \<in> set ?V" "b \<in> set ?V" "a \<noteq> b" "P = shortest_path ?G b a"
      "w = 1 / of_nat (length P)" by auto
    with spne have "P \<noteq> []" by auto
    with t abw show "case e of (a, b, w, P) \<Rightarrow> a \<in> set ?V \<and> b \<in> set ?V \<and> a \<noteq> b \<and> 0 < w"
      by simp
  qed
  from max_weight_matching_perfect [OF odd_nodes_facts(1,2) [OF wf] one pos mwm]
  have cov: "set (covered M) = set ?V" .
  from mwm have m: "is_matching Gp M" by (simp add: is_max_weight_matching_def)
  have prem: "\<forall>(m, n) \<in> set M. m \<noteq> n \<and> (\<exists>a b w P. gp_lookup Gp m n = Some (a, b, w, P) \<and> P \<noteq> [] \<and>
        ((hd P = m \<and> last P = n) \<or> (hd P = n \<and> last P = m)) \<and>
        (\<forall>(u, v) \<in> set (pairwise_list P). u \<in> set (node_list ?G) \<and> v \<in> set (node_list ?G)))"
  proof (intro ballI)
    fix q assume q: "q \<in> set M"
    obtain u v where uv: "q = (u, v)" by (cases q) auto
    with m q have "list_ex (joins u v) Gp" by (auto simp: is_matching_def list_all_iff)
    then obtain e where f: "find (joins u v) Gp = Some e"
      by (cases "find (joins u v) Gp") (auto simp: list_ex_iff find_None_iff)
    then have e: "e \<in> set Gp" "joins u v e" by (auto simp: find_Some_iff)
    obtain a b w P where abw: "e = (a, b, w, P)" by (cases e) auto
    with two e(1) have t: "a \<in> set ?V" "b \<in> set ?V" "a \<noteq> b" "P = shortest_path ?G b a" by auto
    with sp have p: "is_path ?G b a P" by auto
    from joins_ends [OF e(2) [unfolded abw]] have j: "(u = a \<and> v = b) \<or> (u = b \<and> v = a)" .
    have "u \<noteq> v" using j t(3) by auto
    moreover have "gp_lookup Gp u v = Some (a, b, w, P)" using f abw by (simp add: gp_lookup_def)
    moreover have "P \<noteq> []" "(hd P = u \<and> last P = v) \<or> (hd P = v \<and> last P = u)"
      using p j by (auto simp: is_path_def)
    moreover note path_inside [OF wfM p]
    ultimately show "case q of (m, n) \<Rightarrow> m \<noteq> n \<and> (\<exists>a b w P. gp_lookup Gp m n = Some (a, b, w, P) \<and>
        P \<noteq> [] \<and> ((hd P = m \<and> last P = n) \<or> (hd P = n \<and> last P = m)) \<and>
        (\<forall>(u, v) \<in> set (pairwise_list P). u \<in> set (node_list ?G) \<and> v \<in> set (node_list ?G)))"
      unfolding uv by blast
  qed
  from duplicate_paths_parity [OF prem] obtain H es where
    r: "duplicate_paths ?G Gp M = (None, H)" and n: "node_list H = node_list ?G"
    and f: "is_directed H = is_directed ?G" "is_multigraph H = is_multigraph ?G"
    and e: "edge_list H = edge_list ?G @ es"
    and par: "\<And>x. odd (degree H x) \<longleftrightarrow> (odd (degree ?G x) \<noteq> odd (count_list (covered M) x))"
    by blast
  have dc: "distinct (covered M)" using m by (simp add: is_matching_def)
  have cnt: "odd (count_list (covered M) x) \<longleftrightarrow> x \<in> set ?V" for x
  proof (cases "x \<in> set (covered M)")
    case True
    have "distinct xs \<Longrightarrow> x \<in> set xs \<Longrightarrow> count_list xs x = 1" for xs :: "vertex list"
      by (induction xs) auto
    with dc True have "count_list (covered M) x = 1" by blast
    with True cov show ?thesis by simp
  next
    case False
    then have "count_list (covered M) x = 0" by simp
    with False cov show ?thesis by simp
  qed
  have ev: "\<forall>x \<in> set (node_list G). even (degree H x)"
  proof
    fix x assume x: "x \<in> set (node_list G)"
    from par [of x] cnt [of x] odd_nodes_facts(3) [OF wf, of x] x
    show "even (degree H x)" by (simp add: MultiGraph_simps)
  qed
  have "is_eulerian H = Inr True"
    using eulerize_graph_eulerian [of H G es] nd n ne e c ev f
    by (simp add: MultiGraph_simps)
  with r n f e show ?thesis by (simp add: MultiGraph_simps)
qed

lemma eulerize_unfold:
  assumes "\<not> is_directed (\<sigma> ! g)" "node_list (\<sigma> ! g) \<noteq> []" "is_connected (\<sigma> ! g) = Inr True"
  shows "eulerize shortest_path max_weight_matching \<sigma> g =
    (if odd_nodes (\<sigma> ! g) = [] then (Inr (length \<sigma>), \<sigma> @ [MultiGraph (\<sigma> ! g)])
     else case auxiliary_graph shortest_path (MultiGraph (\<sigma> ! g)) (odd_nodes (\<sigma> ! g)) of
        Inl e \<Rightarrow> (Inl e, \<sigma> @ [MultiGraph (\<sigma> ! g)])
      | Inr Gp \<Rightarrow>
         (case duplicate_paths (MultiGraph (\<sigma> ! g)) Gp (max_weight_matching Gp) of
            (Some e, H) \<Rightarrow> (Inl e, \<sigma> @ [H])
          | (None, H) \<Rightarrow> (Inr (length \<sigma>), \<sigma> @ [H])))"
  using assms
  by (auto simp: eulerize_def new_object_def order_def odd_nodes_def Let_def
      split: sum.splits prod.splits option.splits)

text \<open>
  C2: for an undirected, non-empty, connected graph that satisfies the invariant of the
  container, with a shortest-path solver that returns a path between every two vertices of
  odd degree and a matching solver that returns a maximum-weight matching of the auxiliary
  graph, \<open>eulerize\<close> raises nothing and returns a new multigraph that \<open>is_eulerian\<close>
  accepts, with the vertices of the input and with all the edges of the input.
\<close>

theorem eulerize_eulerian:
  assumes wf: "wf_graph (\<sigma> ! g)" and nd: "\<not> is_directed (\<sigma> ! g)"
    and ne: "node_list (\<sigma> ! g) \<noteq> []" and c: "is_connected (\<sigma> ! g) = Inr True"
    and sp: "\<forall>m \<in> set (odd_nodes (\<sigma> ! g)). \<forall>n \<in> set (odd_nodes (\<sigma> ! g)). m \<noteq> n \<longrightarrow>
        is_path (MultiGraph (\<sigma> ! g)) m n (shortest_path (MultiGraph (\<sigma> ! g)) m n)"
    and mwm: "\<forall>Gp. auxiliary_graph shortest_path (MultiGraph (\<sigma> ! g)) (odd_nodes (\<sigma> ! g)) = Inr Gp
        \<longrightarrow> is_max_weight_matching Gp (max_weight_matching Gp)"
  shows "\<exists>H. eulerize shortest_path max_weight_matching \<sigma> g = (Inr (length \<sigma>), \<sigma> @ [H]) \<and>
     is_eulerian H = Inr True \<and> is_multigraph H \<and> node_list H = node_list (\<sigma> ! g) \<and>
     mset (edge_list (\<sigma> ! g)) \<subseteq># mset (edge_list H)"
proof (cases "odd_nodes (\<sigma> ! g) = []")
  case True
  let ?H = "MultiGraph (\<sigma> ! g)"
  have "\<forall>x \<in> set (node_list (\<sigma> ! g)). even (degree ?H x)"
    using True odd_nodes_facts(3) [OF wf] by (auto simp: MultiGraph_simps)
  from eulerize_graph_eulerian [of ?H "\<sigma> ! g" "[]", OF _ _ ne _ c this] nd
  have "is_eulerian ?H = Inr True" by (simp add: MultiGraph_simps)
  with True show ?thesis
    unfolding eulerize_unfold [OF nd ne c]
    by (intro exI [of _ ?H]) (simp add: MultiGraph_simps)
next
  case False
  let ?G = "MultiGraph (\<sigma> ! g)"
  let ?V = "odd_nodes (\<sigma> ! g)"
  have spne: "\<forall>m \<in> set ?V. \<forall>n \<in> set ?V. m \<noteq> n \<longrightarrow> shortest_path ?G m n \<noteq> []"
    using sp by (auto simp: is_path_def)
  from auxiliary_graph_shape [where odd_degree_nodes = ?V and shortest_path = shortest_path
      and G = ?G, OF odd_nodes_facts(1) [OF wf] spne]
  obtain Gp where gp: "auxiliary_graph shortest_path ?G ?V = Inr Gp" by blast
  with mwm have m: "is_max_weight_matching Gp (max_weight_matching Gp)" by blast
  from eulerize_result [OF wf nd ne c sp gp m] obtain H es where
    H: "duplicate_paths ?G Gp (max_weight_matching Gp) = (None, H)" "is_eulerian H = Inr True"
      "is_multigraph H" "node_list H = node_list (\<sigma> ! g)" "edge_list H = edge_list (\<sigma> ! g) @ es"
    by blast
  with False gp show ?thesis
    unfolding eulerize_unfold [OF nd ne c]
    by (intro exI [of _ H]) simp
qed

lemma path2_matching:
  "is_max_weight_matching [(1, 0, 1 / 2, [0, 1])] [(1, 0)]"
proof -
  let ?Gp = "[(1 :: vertex, 0 :: vertex, 1 / 2 :: rat, [0 :: vertex, 1])]"
  have w: "pair_weight ?Gp p \<le> 1 / 2" for p
    by (auto simp: pair_weight_def gp_lookup_def joins_def)
  have "matching_weight ?Gp M' \<le> 1 / 2" if "is_matching ?Gp M'" for M'
  proof (cases M')
    case Nil
    then show ?thesis by (simp add: matching_weight_def)
  next
    case (Cons p ps)
    show ?thesis
    proof (cases ps)
      case Nil
      with Cons w [of p] show ?thesis by (simp add: matching_weight_def)
    next
      case (Cons q qs)
      with \<open>M' = p # ps\<close> that have "distinct (covered [p, q])"
        and "joins (fst p) (snd p) (1, 0, 1 / 2, [0, 1])"
        and "joins (fst q) (snd q) (1, 0, 1 / 2, [0, 1])"
        by (auto simp: is_matching_def covered_def)
      then have False by (cases p; cases q) (auto simp: covered_def joins_def)
      then show ?thesis ..
    qed
  qed
  then have a: "\<forall>M'. is_matching ?Gp M' \<longrightarrow> matching_weight ?Gp M' \<le> 1 / 2" by blast
  have b: "is_matching ?Gp [(1, 0)]" by (simp add: is_matching_def covered_def joins_def)
  have c: "matching_weight ?Gp [(1, 0)] = 1 / 2"
    by (simp add: matching_weight_def pair_weight_def gp_lookup_def joins_def)
  show ?thesis unfolding is_max_weight_matching_def c using a b by blast
qed

theorem eulerize_eulerian_witness:
  "wf_graph ([path2] ! 0) \<and> \<not> is_directed ([path2] ! 0) \<and> node_list ([path2] ! 0) \<noteq> [] \<and>
   is_connected ([path2] ! 0) = Inr True \<and> odd_nodes ([path2] ! 0) = [0, 1] \<and>
   is_path (MultiGraph path2) 0 1 (direct_path (MultiGraph path2) 0 1) \<and>
   is_path (MultiGraph path2) 1 0 (direct_path (MultiGraph path2) 1 0) \<and>
   auxiliary_graph direct_path (MultiGraph path2) [0, 1] = Inr [(1, 0, 1 / 2, [0, 1])] \<and>
   is_max_weight_matching [(1, 0, 1 / 2, [0, 1])] (all_pairs_matching [(1, 0, 1 / 2, [0, 1])]) \<and>
   eulerize direct_path all_pairs_matching [path2] 0 = (Inr 1, [path2, doubled_path2]) \<and>
   is_eulerian doubled_path2 = Inr True \<and>
   mset (edge_list path2) \<subseteq># mset (edge_list doubled_path2)"
proof -
  have wf: "wf_graph ([path2] ! 0)" by (simp add: wf_graph_def path2_def)
  have nd: "\<not> is_directed ([path2] ! 0)" and ne: "node_list ([path2] ! 0) \<noteq> []"
    by (simp_all add: path2_def)
  have c: "is_connected ([path2] ! 0) = Inr True"
    by (simp add: path2_def is_connected_def order_def covers_def arcs_def rev_arcs_def)
  have o: "odd_nodes ([path2] ! 0) = [0, 1]"
    by (simp add: odd_nodes_def path2_def degree_def in_degree_def out_degree_def)
  have p: "is_path (MultiGraph path2) 0 1 (direct_path (MultiGraph path2) 0 1)"
    "is_path (MultiGraph path2) 1 0 (direct_path (MultiGraph path2) 1 0)"
    by (simp_all add: is_path_def direct_path_def pairwise_list_def MultiGraph_def path2_def
        same_ends_def)
  have sp: "\<forall>m \<in> set (odd_nodes ([path2] ! 0)). \<forall>n \<in> set (odd_nodes ([path2] ! 0)). m \<noteq> n \<longrightarrow>
      is_path (MultiGraph ([path2] ! 0)) m n (direct_path (MultiGraph ([path2] ! 0)) m n)"
    unfolding o using p by simp
  have a: "auxiliary_graph direct_path (MultiGraph path2) [0, 1] = Inr [(1, 0, 1 / 2, [0, 1])]"
    by (simp add: auxiliary_graph_def direct_path_def gp_add_edge_def joins_def)
  have m: "is_max_weight_matching [(1, 0, 1 / 2, [0, 1])]
      (all_pairs_matching [(1, 0, 1 / 2, [0, 1])])"
    using path2_matching by (simp add: all_pairs_matching_def)
  have mwm: "\<forall>Gp. auxiliary_graph direct_path (MultiGraph ([path2] ! 0)) (odd_nodes ([path2] ! 0))
      = Inr Gp \<longrightarrow> is_max_weight_matching Gp (all_pairs_matching Gp)"
    unfolding o using a m by simp
  have e: "eulerize direct_path all_pairs_matching [path2] 0 = (Inr 1, [path2, doubled_path2])"
    by code_simp
  from eulerize_eulerian [OF wf nd ne c sp mwm] e
  have "is_eulerian doubled_path2 = Inr True \<and>
      mset (edge_list path2) \<subseteq># mset (edge_list doubled_path2)" by simp
  with wf nd ne c o p a m e show ?thesis by simp
qed

end
